theory Spec2Isabelle
  imports Main "HOL-Library.Word"
begin

unbundle bit_operations_syntax

section \<open>Block signatures (internal.h of the block processor)\<close>

text \<open>
  \<^verbatim>\<open>#define MK_BLK_SIG(chksum, size) (((uint64_t)(size) << 32) | (uint64_t)(chksum))\<close>
  \<^verbatim>\<open>#define BLK_SIZE(sig) ((sig) >> 32)\<close>

  The checksum is a 32-bit value; the size argument is taken after its conversion to
  \<^verbatim>\<open>uint64_t\<close>, so that the shift can be seen to lose bits for sizes of 2^32 and more.
\<close>

definition MK_BLK_SIG :: "32 word \<Rightarrow> 64 word \<Rightarrow> 64 word" where
  "MK_BLK_SIG chksum sz = push_bit 32 sz OR ucast chksum"

definition BLK_SIZE :: "64 word \<Rightarrow> 64 word" where
  "BLK_SIZE sig = drop_bit 32 sig"


section \<open>Character classes and C strings\<close>

text \<open>
  A C string is modelled by the list of its characters before the terminating NUL.
  Reading \<^verbatim>\<open>*str\<close> at the end of the list reads the NUL, which is neither a space nor
  a digit and differs from every character it is compared with. \<^verbatim>\<open>isspace\<close> and
  \<^verbatim>\<open>isdigit\<close> are those of the "C" locale.
\<close>

definition isspace :: "char \<Rightarrow> bool" where
  "isspace c = (c = CHR '' '' \<or> c = CHR 0x09 \<or> c = CHR 0x0A \<or> c = CHR 0x0B
               \<or> c = CHR 0x0C \<or> c = CHR 0x0D)"

definition isdigit :: "char \<Rightarrow> bool" where
  "isdigit c = (48 \<le> (of_char c :: nat) \<and> (of_char c :: nat) \<le> 57)"

abbreviation DQ :: char where "DQ \<equiv> CHR 0x22"
abbreviation SQ :: char where "SQ \<equiv> CHR 0x27"
abbreviation BSL :: char where "BSL \<equiv> CHR 0x5C"

section \<open>The pseudo-file parser (fstree\_from\_file.c)\<close>

subsection \<open>Scanning helpers\<close>

text \<open>\<^verbatim>\<open>skip_space\<close>: NULL unless the string starts with a space; else the string after
  the leading run of spaces.\<close>

definition skip_space :: "string \<Rightarrow> string option" where
  "skip_space str =
     (case str of [] \<Rightarrow> None
      | c # _ \<Rightarrow> if \<not> isspace c then None else Some (dropWhile isspace str))"

text \<open>
  \<^verbatim>\<open>read_u32\<close>: the loop over the leading digits, on 32-bit unsigned values. The result
  is the pointer behind the digits (the rest of the string) and the value stored through
  \<^verbatim>\<open>out\<close>; \<open>None\<close> is the NULL return.
\<close>

fun read_u32_loop :: "string \<Rightarrow> 32 word \<Rightarrow> 32 word \<Rightarrow> (string \<times> 32 word) option" where
  "read_u32_loop [] out base = Some ([], out)"
| "read_u32_loop (c # str) out base =
     (if isdigit c then
        (let x = (of_nat (of_char c - 48) :: 32 word) in
         if x \<ge> base \<or> out > (0xFFFFFFFF - x) div base then None
         else read_u32_loop str (out * base + x) base)
      else Some (c # str, out))"

definition read_u32 :: "string \<Rightarrow> 32 word \<Rightarrow> (string \<times> 32 word) option" where
  "read_u32 str base =
     (case str of [] \<Rightarrow> None
      | c # _ \<Rightarrow> if \<not> isdigit c then None else read_u32_loop str 0 base)"

text \<open>
  \<^verbatim>\<open>read_str\<close>. The loop of the double-quoted branch copies characters through
  \<^verbatim>\<open>ptr\<close>, which starts at the opening quote and stays behind \<^verbatim>\<open>str\<close>; the
  accumulator holds what has been written. The result is the returned pointer (the rest
  of the line, leading spaces skipped) and the string \<^verbatim>\<open>*out\<close>.
\<close>

fun read_str_quoted :: "string \<Rightarrow> string \<Rightarrow> (string \<times> string) option" where
  "read_str_quoted [] acc = None"
| "read_str_quoted (c # str) acc =
     (if c = DQ then
        (if str \<noteq> [] \<and> isspace (hd str) then Some (dropWhile isspace str, acc) else None)
      else if c = BSL \<and> str \<noteq> [] \<and> (hd str = DQ \<or> hd str = BSL) then
        read_str_quoted (tl str) (acc @ [hd str])
      else read_str_quoted str (acc @ [c]))"

definition read_str :: "string \<Rightarrow> (string \<times> string) option" where
  "read_str str =
     (if str \<noteq> [] \<and> hd str = DQ then read_str_quoted (tl str) []
      else
        (let out = takeWhile (\<lambda>c. \<not> isspace c) str;
             str1 = dropWhile (\<lambda>c. \<not> isspace c) str
         in if str1 = [] then None else Some (dropWhile isspace (tl str1), out)))"

text \<open>\<^verbatim>\<open>name_string_length\<close> and \<^verbatim>\<open>quote_remove\<close>, used for the patterns of
  \<^verbatim>\<open>-name\<close> and \<^verbatim>\<open>-path\<close>.\<close>

definition name_string_length :: "string \<Rightarrow> nat" where
  "name_string_length str =
     (if str \<noteq> [] \<and> (hd str = DQ \<or> hd str = SQ) then
        (let start = hd str;
             len = 1 + length (takeWhile (\<lambda>c. c \<noteq> start) (tl str))
         in if len < length str then len + 1 else len)
      else length (takeWhile (\<lambda>c. \<not> isspace c) str))"

definition quote_remove :: "string \<Rightarrow> string" where
  "quote_remove str =
     (if str = [] then str
      else if hd str \<noteq> SQ \<and> hd str \<noteq> DQ then str
      else takeWhile (\<lambda>c. c \<noteq> hd str) (tl str))"

subsection \<open>Scan flags and the option table of glob\<close>

text \<open>
  Modelled from the spec: the \<^verbatim>\<open>DIR_SCAN_*\<close> constants are declared in a header that is
  not among the sources. They are the filters of the directory scan (exclude by kind,
  stay within the filesystem, keep host mtime, uid, gid, mode, non-recursive, match the
  full path), each one bit of the flag word. A flag word is modelled by the set of the
  flags that are set, so \<^verbatim>\<open>a | b\<close> is union, \<^verbatim>\<open>a & ~b\<close> is difference and 0 is the
  empty set.
\<close>

datatype dir_scan_flag =
    DIR_SCAN_NO_BLK | DIR_SCAN_NO_CHR | DIR_SCAN_NO_DIR | DIR_SCAN_NO_FIFO
  | DIR_SCAN_NO_FILE | DIR_SCAN_NO_SLINK | DIR_SCAN_NO_SOCK
  | DIR_SCAN_ONE_FILESYSTEM | DIR_SCAN_KEEP_TIME | DIR_SCAN_NO_RECURSION
  | DIR_SCAN_KEEP_MODE | DIR_SCAN_KEEP_UID | DIR_SCAN_KEEP_GID
  | DIR_SCAN_MATCH_FULL_PATH

type_synonym scan_flags = "dir_scan_flag set"



text \<open>
  \<^verbatim>\<open>strncmp(s, name, strlen(name)) == 0 && isspace(s[strlen(name)])\<close>: the string
  starts with the name and a space follows it.
\<close>

definition starts_with_word :: "string \<Rightarrow> string \<Rightarrow> bool" where
  "starts_with_word name s =
     (take (length name) s = name \<and> length name < length s \<and> isspace (s ! length name))"






subsection \<open>The keyword table and \<^verbatim>\<open>handle_line\<close>\<close>

text \<open>The file type bits of \<^verbatim>\<open><sys/stat.h>\<close> (octal 0040000, 0120000, ...).\<close>

definition S_IFMT :: "32 word" where "S_IFMT = 0xF000"
definition S_IFDIR :: "32 word" where "S_IFDIR = 0x4000"
definition S_IFLNK :: "32 word" where "S_IFLNK = 0xA000"
definition S_IFIFO :: "32 word" where "S_IFIFO = 0x1000"
definition S_IFSOCK :: "32 word" where "S_IFSOCK = 0xC000"
definition S_IFREG :: "32 word" where "S_IFREG = 0x8000"

datatype callback_fn = add_generic | add_hard_link | add_device | add_file | glob_files

text \<open>\<^verbatim>\<open>struct callback_t\<close>; its field \<^verbatim>\<open>mode\<close> is \<open>type_mode\<close> here, the name
  \<open>mode\<close> being the tree node's.\<close>

record callback_t =
  keyword :: string
  type_mode :: "32 word"
  need_extra :: bool
  is_glob :: bool
  allow_root :: bool
  callback :: callback_fn

definition file_list_hooks :: "callback_t list" where
  "file_list_hooks =
    [ \<lparr>keyword = ''dir'', type_mode = S_IFDIR, need_extra = False, is_glob = False,
        allow_root = True, callback = add_generic\<rparr>,
      \<lparr>keyword = ''slink'', type_mode = S_IFLNK, need_extra = True, is_glob = False,
        allow_root = False, callback = add_generic\<rparr>,
      \<lparr>keyword = ''link'', type_mode = 0, need_extra = True, is_glob = False,
        allow_root = False, callback = add_hard_link\<rparr>,
      \<lparr>keyword = ''nod'', type_mode = 0, need_extra = True, is_glob = False,
        allow_root = False, callback = add_device\<rparr>,
      \<lparr>keyword = ''pipe'', type_mode = S_IFIFO, need_extra = False, is_glob = False,
        allow_root = False, callback = add_generic\<rparr>,
      \<lparr>keyword = ''sock'', type_mode = S_IFSOCK, need_extra = False, is_glob = False,
        allow_root = False, callback = add_generic\<rparr>,
      \<lparr>keyword = ''file'', type_mode = S_IFREG, need_extra = False, is_glob = False,
        allow_root = False, callback = add_file\<rparr>,
      \<lparr>keyword = ''glob'', type_mode = 0, need_extra = False, is_glob = True,
        allow_root = True, callback = glob_files\<rparr> ]"

text \<open>
  The labels \<^verbatim>\<open>handle_line\<close> jumps to on failure. Each prints the file name and the
  line number before its message (\<^verbatim>\<open>"%s: %zu: ..."\<close>); \<^verbatim>\<open>fail_root\<close> and
  \<^verbatim>\<open>fail_no_extra\<close> also print the keyword. A diagnostic is what is printed: file
  name, line number, message.
\<close>

datatype line_error =
  fail_root string | fail_no_extra string | fail_uid_gid | fail_mode | fail_kw | fail_ent

type_synonym diag = "string \<times> nat \<times> line_error"

text \<open>The fields of \<^verbatim>\<open>struct stat\<close> that \<^verbatim>\<open>handle_line\<close> sets; \<^verbatim>\<open>memset\<close> zeroes
  the others.\<close>

record stat =
  st_mtime :: int
  st_mode :: "32 word"
  st_uid :: "32 word"
  st_gid :: "32 word"

text \<open>The keyword loop: the first hook whose keyword the line starts with, a space
  following. \<^verbatim>\<open>skip_space(line + len)\<close> cannot fail there, since \<^verbatim>\<open>line[len]\<close> is a
  space; it gives the line behind the keyword and the spaces after it.\<close>

fun find_hook :: "callback_t list \<Rightarrow> string \<Rightarrow> (callback_t \<times> string) option" where
  "find_hook [] line = None"
| "find_hook (h # hs) line =
     (if starts_with_word (keyword h) line
      then Some (h, dropWhile isspace (drop (length (keyword h)) line))
      else find_hook hs line)"

text \<open>
  The mode field (lines 444 to 451): \<^verbatim>\<open>*\<close> for glob, else an octal number of at most
  07777. The result is the rest of the line, the mode and the bits added to
  \<^verbatim>\<open>glob_flags\<close>; \<open>None\<close> is the jump to \<^verbatim>\<open>fail_mode\<close>.
\<close>

definition mode_field :: "callback_t \<Rightarrow> string \<Rightarrow> (string \<times> 32 word \<times> scan_flags) option" where
  "mode_field cb line =
     (if is_glob cb \<and> line \<noteq> [] \<and> hd line = CHR ''*''
      then Some (tl line, 0, {DIR_SCAN_KEEP_MODE})
      else (case read_u32 line 8 of
              None \<Rightarrow> None
            | Some (line', mode) \<Rightarrow> if mode > 0xFFF then None else Some (line', mode, {})))"

text \<open>The uid field and the gid field (lines 456 to 475), which differ in the flag
  only; \<open>None\<close> is the jump to \<^verbatim>\<open>fail_uid_gid\<close>.\<close>

definition id_field ::
  "callback_t \<Rightarrow> dir_scan_flag \<Rightarrow> string \<Rightarrow> (string \<times> 32 word \<times> scan_flags) option" where
  "id_field cb keep line =
     (if is_glob cb \<and> line \<noteq> [] \<and> hd line = CHR ''*''
      then Some (tl line, 0, {keep})
      else (case read_u32 line 10 of
              None \<Rightarrow> None
            | Some (line', v) \<Rightarrow> Some (line', v, {})))"

text \<open>
  \<^verbatim>\<open>handle_line\<close>. Its collaborators that are not among the sources are parameters:
  \<open>canonicalize_name\<close> (the rewritten path, or \<open>None\<close> for a non-zero return),
  \<open>defaults_mtime\<close> (\<^verbatim>\<open>fs->defaults.mtime\<close>) and \<open>run\<close>, the call through
  \<^verbatim>\<open>cb->callback\<close> with its eight arguments, whose result is the result of
  \<^verbatim>\<open>handle_line\<close>. \<open>handle_entry\<close> is the body behind the keyword loop.
\<close>

definition handle_entry ::
  "(string \<Rightarrow> string option) \<Rightarrow> ('fs \<Rightarrow> int)
    \<Rightarrow> (callback_fn \<Rightarrow> 'fs \<Rightarrow> string \<Rightarrow> nat \<Rightarrow> string \<Rightarrow> stat \<Rightarrow> string option
          \<Rightarrow> scan_flags \<Rightarrow> string option \<Rightarrow> 'r)
    \<Rightarrow> 'fs \<Rightarrow> string \<Rightarrow> nat \<Rightarrow> callback_t \<Rightarrow> string \<Rightarrow> string option \<Rightarrow> diag + 'r" where
  "handle_entry canonicalize_name defaults_mtime run fs filename line_num cb line basepath =
     (case read_str line of
        None \<Rightarrow> Inl (filename, line_num, fail_ent)
      | Some (line2, path0) \<Rightarrow>
     (case canonicalize_name path0 of
        None \<Rightarrow> Inl (filename, line_num, fail_ent)
      | Some path \<Rightarrow>
     if path = [] \<and> \<not> allow_root cb
     then Inl (filename, line_num, fail_root (keyword cb))
     else
     (case mode_field cb line2 of
        None \<Rightarrow> Inl (filename, line_num, fail_mode)
      | Some (line3, mode, gf_mode) \<Rightarrow>
     (case skip_space line3 of
        None \<Rightarrow> Inl (filename, line_num, fail_ent)
      | Some line4 \<Rightarrow>
     (case id_field cb DIR_SCAN_KEEP_UID line4 of
        None \<Rightarrow> Inl (filename, line_num, fail_uid_gid)
      | Some (line5, uid, gf_uid) \<Rightarrow>
     (case skip_space line5 of
        None \<Rightarrow> Inl (filename, line_num, fail_ent)
      | Some line6 \<Rightarrow>
     (case id_field cb DIR_SCAN_KEEP_GID line6 of
        None \<Rightarrow> Inl (filename, line_num, fail_uid_gid)
      | Some (line7, gid, gf_gid) \<Rightarrow>
     (let extra = (case skip_space line7 of
                     None \<Rightarrow> None
                   | Some line8 \<Rightarrow> if line8 \<noteq> [] then Some line8 else None)
      in if need_extra cb \<and> extra = None
         then Inl (filename, line_num, fail_no_extra (keyword cb))
         else Inr (run (callback cb) fs filename line_num path
                     \<lparr>st_mtime = defaults_mtime fs, st_mode = mode OR type_mode cb,
                      st_uid = uid, st_gid = gid\<rparr>
                     basepath (gf_mode \<union> gf_uid \<union> gf_gid) extra)))))))))"

definition handle_line ::
  "(string \<Rightarrow> string option) \<Rightarrow> ('fs \<Rightarrow> int)
    \<Rightarrow> (callback_fn \<Rightarrow> 'fs \<Rightarrow> string \<Rightarrow> nat \<Rightarrow> string \<Rightarrow> stat \<Rightarrow> string option
          \<Rightarrow> scan_flags \<Rightarrow> string option \<Rightarrow> 'r)
    \<Rightarrow> 'fs \<Rightarrow> string \<Rightarrow> nat \<Rightarrow> string \<Rightarrow> string option \<Rightarrow> diag + 'r" where
  "handle_line canonicalize_name defaults_mtime run fs filename line_num line basepath =
     (case find_hook file_list_hooks line of
        None \<Rightarrow> Inl (filename, line_num, fail_kw)
      | Some (cb, line1) \<Rightarrow>
          handle_entry canonicalize_name defaults_mtime run fs filename line_num cb line1
            basepath)"

subsection \<open>\<^verbatim>\<open>fstree_from_file_stream\<close>\<close>

text \<open>
  Modelled from the spec: \<^verbatim>\<open>istream_get_line\<close> is not among the sources. The spec has
  the lines "trimmed of leading whitespace and empty lines ignored" (the flags
  \<^verbatim>\<open>ISTREAM_LINE_LTRIM | ISTREAM_LINE_SKIP_EMPTY\<close> of the call), and the line counter
  passed by reference is advanced over every line that is skipped. A stream of lines is
  its file name, the lines still to be read, and whether reading behind the last of them
  fails (a read error, return value below 0) or ends the file (return value above 0).
\<close>

record line_stream =
  ls_filename :: string
  ls_lines :: "string list"
  ls_io_error :: bool

datatype get_line_result = GL_Error | GL_Eof | GL_Line string nat "string list"

fun istream_get_line :: "string list \<Rightarrow> bool \<Rightarrow> nat \<Rightarrow> get_line_result" where
  "istream_get_line [] io_error line_num = (if io_error then GL_Error else GL_Eof)"
| "istream_get_line (l # ls) io_error line_num =
     (let line = dropWhile isspace l
      in if line = [] then istream_get_line ls io_error (line_num + 1)
         else GL_Line line line_num ls)"

text \<open>
  The loop of \<^verbatim>\<open>fstree_from_file_stream\<close>. The callback returns its return value and
  the tree it leaves. The result is the return value (0 or -1), the tree, and the
  diagnostic of \<^verbatim>\<open>handle_line\<close>, if it printed one.
\<close>

function from_file_loop ::
  "(string \<Rightarrow> string option) \<Rightarrow> ('fs \<Rightarrow> int)
    \<Rightarrow> (callback_fn \<Rightarrow> 'fs \<Rightarrow> string \<Rightarrow> nat \<Rightarrow> string \<Rightarrow> stat \<Rightarrow> string option
          \<Rightarrow> scan_flags \<Rightarrow> string option \<Rightarrow> int \<times> 'fs)
    \<Rightarrow> string \<Rightarrow> string option \<Rightarrow> bool \<Rightarrow> 'fs \<Rightarrow> string list \<Rightarrow> nat
    \<Rightarrow> int \<times> 'fs \<times> diag option" where
  "from_file_loop canonicalize_name defaults_mtime run filename basepath io_error fs lines
       line_num =
     (case istream_get_line lines io_error line_num of
        GL_Error \<Rightarrow> (-1, fs, None)
      | GL_Eof \<Rightarrow> (0, fs, None)
      | GL_Line line line_num' lines' \<Rightarrow>
          if hd line \<noteq> CHR ''#'' then
            (case handle_line canonicalize_name defaults_mtime run fs filename line_num'
                    line basepath of
               Inl d \<Rightarrow> (-1, fs, Some d)
             | Inr (ret, fs') \<Rightarrow>
                 if ret \<noteq> 0 then (-1, fs', None)
                 else from_file_loop canonicalize_name defaults_mtime run filename basepath
                        io_error fs' lines' (line_num' + 1))
          else from_file_loop canonicalize_name defaults_mtime run filename basepath
                 io_error fs lines' (line_num' + 1))"
  by pat_completeness auto
termination
proof -
  have shorter: "length ls' < length ls"
    if "istream_get_line ls e n = GL_Line l n' ls'" for ls e n l n' ls'
    using that
  proof (induction ls arbitrary: n)
    case Nil
    then show ?case by (simp split: if_splits)
  next
    case (Cons a ls)
    show ?case
    proof (cases "dropWhile isspace a = []")
      case True
      then have "istream_get_line ls e (n + 1) = GL_Line l n' ls'"
        using Cons.prems by simp
      then show ?thesis using Cons.IH by fastforce
    next
      case False
      then have "ls' = ls" using Cons.prems by (auto simp: Let_def split: if_splits)
      then show ?thesis by simp
    qed
  qed
  show ?thesis
    by (relation "measure (\<lambda>(_, _, _, _, _, _, _, lines, _). length lines)")
       (auto dest: shorter)
qed

declare from_file_loop.simps [simp del]

definition fstree_from_file_stream ::
  "(string \<Rightarrow> string option) \<Rightarrow> ('fs \<Rightarrow> int)
    \<Rightarrow> (callback_fn \<Rightarrow> 'fs \<Rightarrow> string \<Rightarrow> nat \<Rightarrow> string \<Rightarrow> stat \<Rightarrow> string option
          \<Rightarrow> scan_flags \<Rightarrow> string option \<Rightarrow> int \<times> 'fs)
    \<Rightarrow> 'fs \<Rightarrow> line_stream \<Rightarrow> string option \<Rightarrow> int \<times> 'fs \<times> diag option" where
  "fstree_from_file_stream canonicalize_name defaults_mtime run fs fp basepath =
     from_file_loop canonicalize_name defaults_mtime run (ls_filename fp) basepath
       (ls_io_error fp) fs (ls_lines fp) 1"

subsection \<open>Numerals, for stating what \<^verbatim>\<open>read_u32\<close> computes\<close>

text \<open>The value of a digit, the value of a digit string in base \<open>b\<close> (from an initial
  value, and from 0), and the leading run of digits of a string.\<close>

definition digit_val :: "char \<Rightarrow> nat" where
  "digit_val c = of_char c - 48"

definition digits_from :: "nat \<Rightarrow> nat \<Rightarrow> string \<Rightarrow> nat" where
  "digits_from b a ds = foldl (\<lambda>acc c. acc * b + digit_val c) a ds"

definition digits_value :: "nat \<Rightarrow> string \<Rightarrow> nat" where
  "digits_value b ds = digits_from b 0 ds"

definition digit_run :: "string \<Rightarrow> string" where
  "digit_run s = takeWhile isdigit s"


subsection \<open>Fields of a line, for stating what \<^verbatim>\<open>handle_line\<close> accepts\<close>

text \<open>
  A run of spaces; a numeric field (a non-empty string of digits below the base whose
  value is at most the limit); the value \<^verbatim>\<open>handle_line\<close> stores for a field that
  is \<^verbatim>\<open>*\<close> or a number, and the scan flag it adds for it; the text of a field (up to
  the next space) and whether a text is an octal numeral.
\<close>

definition spaces :: "string \<Rightarrow> bool" where
  "spaces s = (s \<noteq> [] \<and> (\<forall>c \<in> set s. isspace c))"

definition field_ok :: "nat \<Rightarrow> nat \<Rightarrow> string \<Rightarrow> bool" where
  "field_ok b lim fld =
     (fld \<noteq> [] \<and> (\<forall>c \<in> set fld. isdigit c \<and> digit_val c < b) \<and> digits_value b fld \<le> lim)"

definition field_value :: "nat \<Rightarrow> string \<Rightarrow> 32 word" where
  "field_value b fld = (if fld = ''*'' then 0 else of_nat (digits_value b fld))"

definition keep_flag :: "dir_scan_flag \<Rightarrow> string \<Rightarrow> scan_flags" where
  "keep_flag k fld = (if fld = ''*'' then {k} else {})"

text \<open>The extra argument of a line whose gid field is followed by \<open>tail\<close>: what
  follows the spaces, if anything does.\<close>

definition extra_of :: "string \<Rightarrow> string option" where
  "extra_of tail = (if dropWhile isspace tail = [] then None else Some (dropWhile isspace tail))"

definition mode_field_text :: "string \<Rightarrow> string" where
  "mode_field_text line2 = takeWhile (\<lambda>c. \<not> isspace c) line2"

definition octal_numeral :: "string \<Rightarrow> bool" where
  "octal_numeral s = (s \<noteq> [] \<and> (\<forall>c \<in> set s. isdigit c \<and> digit_val c < 8))"


subsection \<open>Filter specifications, for stating what the option loop computes\<close>







definition kind_flag :: "char \<Rightarrow> dir_scan_flag" where
  "kind_flag k =
     (if k = CHR ''b'' then DIR_SCAN_NO_BLK
      else if k = CHR ''c'' then DIR_SCAN_NO_CHR
      else if k = CHR ''d'' then DIR_SCAN_NO_DIR
      else if k = CHR ''p'' then DIR_SCAN_NO_FIFO
      else if k = CHR ''f'' then DIR_SCAN_NO_FILE
      else if k = CHR ''l'' then DIR_SCAN_NO_SLINK
      else DIR_SCAN_NO_SOCK)"

definition kind_exclusion_flags :: scan_flags where
  "kind_exclusion_flags =
     {DIR_SCAN_NO_BLK, DIR_SCAN_NO_CHR, DIR_SCAN_NO_DIR, DIR_SCAN_NO_FIFO,
      DIR_SCAN_NO_FILE, DIR_SCAN_NO_SLINK, DIR_SCAN_NO_SOCK}"




subsection \<open>Quoting, for stating what \<^verbatim>\<open>read_str\<close> accepts\<close>

text \<open>
  The body of a double-quoted field is a sequence of items: a plain character, written
  as it is, or one of the two escape sequences, a backslash and the character it stands
  for. A sequence is well formed when every escape is of a double quote or a backslash,
  no plain character is a double quote, and a plain backslash is followed by a plain
  character other than a backslash (followed by a double quote or a backslash it would
  be an escape sequence).
\<close>

datatype dq_item = Plain char | Esc char

fun dq_text_item :: "dq_item \<Rightarrow> string" where
  "dq_text_item (Plain c) = [c]"
| "dq_text_item (Esc c) = [BSL, c]"

definition dq_text :: "dq_item list \<Rightarrow> string" where
  "dq_text items = concat (map dq_text_item items)"

fun dq_value :: "dq_item \<Rightarrow> char" where
  "dq_value (Plain c) = c"
| "dq_value (Esc c) = c"

fun dq_ok :: "dq_item list \<Rightarrow> bool" where
  "dq_ok [] = True"
| "dq_ok (Esc c # items) = ((c = DQ \<or> c = BSL) \<and> dq_ok items)"
| "dq_ok (Plain c # items) =
     (c \<noteq> DQ
      \<and> (c = BSL \<longrightarrow> (case items of Plain d # _ \<Rightarrow> d \<noteq> BSL | _ \<Rightarrow> False))
      \<and> dq_ok items)"


subsection \<open>Collaborators for the concrete examples\<close>

text \<open>
  The theorems on \<^verbatim>\<open>handle_line\<close> and \<^verbatim>\<open>fstree_from_file_stream\<close> hold for every
  \<open>canonicalize_name\<close>, \<open>defaults_mtime\<close> and \<open>run\<close>. The examples need some: a
  stand-in for \<^verbatim>\<open>canonicalize_name\<close> that only strips the leading slashes, a tree
  that is the list of the entries added so far (callback, path, attributes, scan flags,
  extra argument), and callbacks that append their entry and fail on a path that is
  already there.
\<close>

definition example_canon :: "string \<Rightarrow> string option" where
  "example_canon p = Some (dropWhile (\<lambda>c. c = CHR ''/'') p)"

type_synonym example_tree = "(callback_fn \<times> string \<times> stat \<times> scan_flags \<times> string option) list"

definition example_mtime :: "example_tree \<Rightarrow> int" where
  "example_mtime fs = 0"

definition example_run ::
  "callback_fn \<Rightarrow> example_tree \<Rightarrow> string \<Rightarrow> nat \<Rightarrow> string \<Rightarrow> stat \<Rightarrow> string option
     \<Rightarrow> scan_flags \<Rightarrow> string option \<Rightarrow> int \<times> example_tree" where
  "example_run c fs filename line_num path sb basepath glob_flags extra =
     (if path \<in> set (map (\<lambda>e. fst (snd e)) fs) then (-1, fs)
      else (0, fs @ [(c, path, sb, glob_flags, extra)]))"

section \<open>Owner override (mkfs.c)\<close>

text \<open>The fields of \<^verbatim>\<open>options_t\<close> that the override reads.\<close>

record options_t =
  force_uid :: bool
  force_gid :: bool
  force_uid_value :: "32 word"
  force_gid_value :: "32 word"

text \<open>
  Modelled from the spec: \<^verbatim>\<open>tree_node_t\<close> is declared in a header that is not among
  the sources. The spec gives a node its owner id, group id, mode bits, further
  attributes (modification time, xattr index, inode number) and a payload by kind, for
  a directory the sequence of its children. A node is modelled with the fields that
  \<^verbatim>\<open>override_owner_dfs\<close> names, \<open>uid\<close>, \<open>gid\<close>, \<open>mode\<close> and \<open>children\<close> (the list
  \<^verbatim>\<open>data.children\<close> linked through \<^verbatim>\<open>next\<close>), and one field \<open>other\<close> for all the
  rest. \<^verbatim>\<open>data\<close> is a union: the children are read for a directory only.
\<close>

datatype 'a tree_node =
  TreeNode (uid: "32 word") (gid: "32 word") (mode: "32 word") (other: 'a)
    (children: "'a tree_node list")

definition S_ISDIR :: "32 word \<Rightarrow> bool" where
  "S_ISDIR m = (m AND S_IFMT = S_IFDIR)"

fun override_owner_dfs :: "options_t \<Rightarrow> 'a tree_node \<Rightarrow> 'a tree_node" where
  "override_owner_dfs opt (TreeNode u g m x cs) =
     TreeNode (if force_uid opt then force_uid_value opt else u)
              (if force_gid opt then force_gid_value opt else g)
              m x
              (if S_ISDIR m then map (override_owner_dfs opt) cs else cs)"

text \<open>
  Lines 226 to 230 of \<^verbatim>\<open>main\<close>: the override, if one is configured, and then
  \<^verbatim>\<open>fstree_post_process\<close> on the tree it leaves. \<^verbatim>\<open>fstree_post_process\<close> is not
  among the sources and is a parameter.
\<close>

definition main_override_then_post_process ::
  "('a tree_node \<Rightarrow> 'r) \<Rightarrow> options_t \<Rightarrow> 'a tree_node \<Rightarrow> 'r" where
  "main_override_then_post_process fstree_post_process opt root =
     fstree_post_process
       (if force_uid opt \<or> force_gid opt then override_owner_dfs opt root else root)"

subsection \<open>Reachable nodes, for stating what the override changes\<close>

text \<open>The attributes (uid, gid, mode, rest) of the nodes reachable from a node through
  the children of directories, in depth-first order; and the tree with every uid and gid
  erased, which is all that the override must leave as it is.\<close>

fun reachable :: "'a tree_node \<Rightarrow> (32 word \<times> 32 word \<times> 32 word \<times> 'a) list" where
  "reachable (TreeNode u g m x cs) =
     (u, g, m, x) # (if S_ISDIR m then concat (map reachable cs) else [])"

fun erase_owner :: "'a tree_node \<Rightarrow> 'a tree_node" where
  "erase_owner (TreeNode u g m x cs) =
     TreeNode 0 0 m x (if S_ISDIR m then map erase_owner cs else cs)"

definition set_owner ::
  "options_t \<Rightarrow> (32 word \<times> 32 word \<times> 32 word \<times> 'a) \<Rightarrow> (32 word \<times> 32 word \<times> 32 word \<times> 'a)" where
  "set_owner opt n =
     (case n of (u, g, m, x) \<Rightarrow>
        (if force_uid opt then force_uid_value opt else u,
         if force_gid opt then force_gid_value opt else g, m, x))"

text \<open>A tree for the examples: the root directory with a file and a directory that
  holds a symbolic link.\<close>

definition example_tree_root :: "string tree_node" where
  "example_tree_root =
     TreeNode 0 0 0x41ED ''/''
       [TreeNode 5 6 0x81A4 ''a'' [],
        TreeNode 7 8 0x41ED ''d'' [TreeNode 9 10 0xA1FF ''l'' []]]"


section \<open>Reading from an input stream (istream.c)\<close>

text \<open>
  Modelled from the spec: \<^verbatim>\<open>istream_t\<close> and \<^verbatim>\<open>istream_precache\<close> are not among the
  sources, and the spec only has the core consume byte streams. \<^verbatim>\<open>istream_read\<close>
  names the fields \<^verbatim>\<open>buffer\<close>, \<^verbatim>\<open>buffer_used\<close> and \<^verbatim>\<open>buffer_offset\<close>; the model
  keeps the \<^verbatim>\<open>buffer_used\<close> valid bytes of the buffer as a list, so
  \<^verbatim>\<open>buffer_used\<close> is its length. What the stream has not fetched yet is the list of
  the chunks the coming fetches deliver, and whether the fetch after the last of them
  fails or finds the end of the data. \<^verbatim>\<open>istream_precache\<close> is modelled by what
  \<^verbatim>\<open>istream_read\<close> relies on: it drops the consumed bytes and sets
  \<^verbatim>\<open>buffer_offset\<close> to 0, appends the next chunk that is not empty, leaves the buffer
  as it is at the end of the data, and fails (a non-zero return, \<open>None\<close>) on a read
  error.
\<close>

record istream_t =
  buffer :: "8 word list"
  buffer_offset :: nat
  pending :: "8 word list list"
  fails :: bool

fun next_chunk :: "8 word list list \<Rightarrow> 8 word list \<times> 8 word list list" where
  "next_chunk [] = ([], [])"
| "next_chunk (c # cs) = (if c = [] then next_chunk cs else (c, cs))"

definition istream_precache :: "istream_t \<Rightarrow> istream_t option" where
  "istream_precache strm =
     (let kept = drop (buffer_offset strm) (buffer strm);
          (c, rest) = next_chunk (pending strm)
      in if c = [] \<and> fails strm then None
         else Some (strm\<lparr>buffer := kept @ c, buffer_offset := 0, pending := rest\<rparr>))"

text \<open>
  \<^verbatim>\<open>istream_read\<close>. Sizes and offsets (\<^verbatim>\<open>size_t\<close>) are natural numbers: the
  subtraction \<^verbatim>\<open>buffer_used - buffer_offset\<close> is reached with
  \<^verbatim>\<open>buffer_offset < buffer_used\<close> only, and nothing else can wrap. The counter
  \<^verbatim>\<open>total\<close> (\<open>total_n\<close> here) is a signed 32-bit value, kept as a word and read
  by \<open>sint\<close>. The
  bytes copied to \<^verbatim>\<open>data\<close> are collected in a list. The result is the return value,
  the stream and the bytes; at a read error the stream is the one the failed fetch was
  called on.
\<close>

function istream_read_loop ::
  "istream_t \<Rightarrow> nat \<Rightarrow> 32 word \<Rightarrow> 8 word list \<Rightarrow> int \<times> istream_t \<times> 8 word list" where
  "istream_read_loop strm sz total_n data =
     (if sz > 0 then
        (if buffer_offset strm \<ge> length (buffer strm) then
           (case istream_precache strm of
              None \<Rightarrow> (-1, strm, data)
            | Some strm' \<Rightarrow>
                if length (buffer strm') = 0 then (sint total_n, strm', data)
                else
                  (let diff = min (length (buffer strm') - buffer_offset strm') sz
                   in istream_read_loop
                        (strm'\<lparr>buffer_offset := buffer_offset strm' + diff\<rparr>)
                        (sz - diff) (total_n + of_nat diff)
                        (data @ take diff (drop (buffer_offset strm') (buffer strm')))))
         else
           (let diff = min (length (buffer strm) - buffer_offset strm) sz
            in istream_read_loop
                 (strm\<lparr>buffer_offset := buffer_offset strm + diff\<rparr>)
                 (sz - diff) (total_n + of_nat diff)
                 (data @ take diff (drop (buffer_offset strm) (buffer strm)))))
      else (sint total_n, strm, data))"
  by pat_completeness auto
termination
proof -
  have zero: "buffer_offset strm' = 0" if "istream_precache strm = Some strm'" for strm strm'
    using that
    by (auto simp: istream_precache_def Let_def split: prod.splits if_splits)
  show ?thesis
    by (relation "measure (\<lambda>(strm, sz, total_n, data). sz)") (auto dest: zero)
qed

declare istream_read_loop.simps [simp del]

definition istream_read :: "istream_t \<Rightarrow> nat \<Rightarrow> int \<times> istream_t \<times> 8 word list" where
  "istream_read strm sz = istream_read_loop strm (if sz > 0x7FFFFFFF then 0x7FFFFFFF else sz) 0 []"

subsection \<open>The bytes of a stream, for stating what a read delivers\<close>

text \<open>The bytes a stream still has to deliver: the unconsumed part of the buffer, then
  the chunks to come.\<close>

definition remaining :: "istream_t \<Rightarrow> 8 word list" where
  "remaining strm = drop (buffer_offset strm) (buffer strm) @ concat (pending strm)"

text \<open>What a run of the loop of \<^verbatim>\<open>istream_read\<close> has to give, for a stream with the
  bytes \<open>R\<close> to deliver and the failure flag \<open>f\<close>, a request of \<open>sz\<close> bytes, a count that
  stands at \<open>base\<close> and the bytes \<open>data\<close> delivered before.\<close>

definition read_post ::
  "8 word list \<Rightarrow> bool \<Rightarrow> nat \<Rightarrow> nat \<Rightarrow> 8 word list \<Rightarrow> int \<times> istream_t \<times> 8 word list \<Rightarrow> bool" where
  "read_post R f sz base data res =
     (case res of (ret, strm', data') \<Rightarrow>
        if sz \<le> length R
        then ret = int (base + sz) \<and> data' = data @ take sz R \<and> remaining strm' = drop sz R
        else if f then ret = -1 \<and> data' = data @ R
        else ret = int (base + length R) \<and> data' = data @ R \<and> remaining strm' = [])"

text \<open>A stream for the examples: one byte of the buffer consumed, two more chunks to
  fetch after an empty one.\<close>

definition example_stream :: istream_t where
  "example_stream =
     \<lparr>buffer = [1, 2, 3], buffer_offset = 1, pending = [[], [4, 5], [6]], fails = False\<rparr>"


section \<open>Properties\<close>

lemma BLK_SIZE_MK_BLK_SIG: "BLK_SIZE (MK_BLK_SIG c sz) = take_bit 32 sz"
  unfolding BLK_SIZE_def MK_BLK_SIG_def
  by (rule bit_word_eqI) (auto simp add: bit_simps dest: bit_imp_le_length)

lemma low_MK_BLK_SIG: "take_bit 32 (MK_BLK_SIG c sz) = ucast c"
  unfolding MK_BLK_SIG_def
  by (rule bit_word_eqI) (auto simp add: bit_simps dest: bit_imp_le_length)

lemma take_bit_32_small: "sz < 2 ^ 32 \<Longrightarrow> take_bit 32 sz = sz" for sz :: "64 word"
  using less_mask_eq [of sz 32] by (simp add: take_bit_eq_mask)

lemma ucast_32_64_32: "(ucast (ucast c :: 64 word) :: 32 word) = c"
  by (rule bit_word_eqI) (auto simp add: bit_simps)

text \<open>
  Claim C2. For a 32-bit checksum and a block size below 2^32 the signature holds the
  size in its upper 32 bits and the checksum in its lower 32 bits: \<open>BLK_SIZE\<close> gives the
  size back, the low half is the checksum, and two pairs with the same signature have
  the same checksum and the same size.
\<close>

theorem blk_sig_layout:
  assumes "sz < 2 ^ 32" and "sz' < 2 ^ 32"
  shows "BLK_SIZE (MK_BLK_SIG c sz) = sz
       \<and> take_bit 32 (MK_BLK_SIG c sz) = ucast c
       \<and> (MK_BLK_SIG c sz = MK_BLK_SIG c' sz' \<longrightarrow> c = c' \<and> sz = sz')"
proof -
  have size_back: "BLK_SIZE (MK_BLK_SIG c sz) = sz"
    using assms(1) by (simp add: BLK_SIZE_MK_BLK_SIG take_bit_32_small)
  have size_back': "BLK_SIZE (MK_BLK_SIG c' sz') = sz'"
    using assms(2) by (simp add: BLK_SIZE_MK_BLK_SIG take_bit_32_small)
  have inj: "c = c' \<and> sz = sz'" if eq: "MK_BLK_SIG c sz = MK_BLK_SIG c' sz'"
  proof
    have "(ucast c :: 64 word) = ucast c'"
      using low_MK_BLK_SIG [of c sz] low_MK_BLK_SIG [of c' sz'] eq by simp
    then have "(ucast (ucast c :: 64 word) :: 32 word) = ucast (ucast c' :: 64 word)"
      by simp
    then show "c = c'" by (simp only: ucast_32_64_32)
    show "sz = sz'" using size_back size_back' eq by simp
  qed
  show ?thesis using size_back low_MK_BLK_SIG inj by blast
qed

theorem blk_sig_layout_witness:
  "BLK_SIZE (MK_BLK_SIG 0xDEADBEEF 4096) = 4096
   \<and> take_bit 32 (MK_BLK_SIG 0xDEADBEEF 4096) = 0xDEADBEEF
   \<and> MK_BLK_SIG 0xDEADBEEF 4096 \<noteq> MK_BLK_SIG 0xDEADBEEF 4097"
proof -
  have a: "(4096 :: 64 word) < 2 ^ 32" by simp
  have b: "(4097 :: 64 word) < 2 ^ 32" by simp
  show ?thesis
    using blk_sig_layout [OF a b, of "0xDEADBEEF" "0xDEADBEEF"] by simp
qed

subsection \<open>\<^verbatim>\<open>read_u32\<close>\<close>

lemma unat_lt32: "unat (w :: 32 word) < 2 ^ 32"
  using unsigned_less [of w, where ?'a = nat] by simp

lemma digit_val_less: "isdigit c \<Longrightarrow> digit_val c < 10"
  by (auto simp: isdigit_def digit_val_def)

lemma digits_from_simps [simp]:
  "digits_from b a [] = a"
  "digits_from b a (c # ds) = digits_from b (a * b + digit_val c) ds"
  by (simp_all add: digits_from_def)

lemma digits_from_ge: "0 < b \<Longrightarrow> a \<le> digits_from b a ds"
proof (induction ds arbitrary: a)
  case Nil
  then show ?case by simp
next
  case (Cons c ds)
  have "a \<le> a * b + digit_val c" using Cons.prems
    by (metis One_nat_def Suc_leI le_add1 le_trans mult.right_neutral mult_le_mono2)
  also have "\<dots> \<le> digits_from b (a * b + digit_val c) ds"
    using Cons.IH [OF Cons.prems] .
  finally show ?case by simp
qed

lemma unat_digit: "isdigit c \<Longrightarrow> unat (of_nat (of_char c - 48) :: 32 word) = digit_val c"
  using digit_val_less [of c] by (simp add: digit_val_def unat_of_nat)

lemma overflow_test:
  fixes out base x :: "32 word"
  assumes "0 < base"
  shows "(out > (0xFFFFFFFF - x) div base) \<longleftrightarrow> (unat out * unat base + unat x \<ge> 2 ^ 32)"
proof -
  have xle: "x \<le> 0xFFFFFFFF"
    using word_le_nat_alt unat_lt32 [of x] by (simp add: word_le_nat_alt)
  have b: "0 < unat base" using assms by (simp add: word_less_nat_alt)
  have "unat ((0xFFFFFFFF - x) div base) = (4294967295 - unat x) div unat base"
    using xle by (simp add: unat_div unat_sub)
  then have "(out > (0xFFFFFFFF - x) div base) \<longleftrightarrow> (4294967295 - unat x) div unat base < unat out"
    by (simp add: word_less_nat_alt)
  also have "\<dots> \<longleftrightarrow> 4294967295 - unat x < unat out * unat base"
    using b by (simp add: div_less_iff_less_mult)
  also have "\<dots> \<longleftrightarrow> unat out * unat base + unat x \<ge> 2 ^ 32"
    using unat_lt32 [of x] by auto
  finally show ?thesis .
qed

lemma no_wrap:
  fixes out base x :: "32 word"
  assumes "unat out * unat base + unat x < 2 ^ 32"
  shows "unat (out * base + x) = unat out * unat base + unat x"
proof -
  have m: "unat (out * base) = unat out * unat base"
    using assms by (simp add: unat_mult_lem [THEN iffD1])
  show ?thesis using assms m by (simp add: unat_add_lem [THEN iffD1])
qed

lemma read_u32_loop_spec:
  assumes "0 < base"
  shows "read_u32_loop s out base =
    (if (\<forall>c \<in> set (digit_run s). digit_val c < unat base)
        \<and> digits_from (unat base) (unat out) (digit_run s) < 2 ^ 32
     then Some (dropWhile isdigit s, of_nat (digits_from (unat base) (unat out) (digit_run s)))
     else None)"
proof (induction s arbitrary: out)
  case Nil
  then show ?case using unat_lt32 [of out] by (simp add: digit_run_def)
next
  case (Cons c s)
  have b: "0 < unat base" using assms by (simp add: word_less_nat_alt)
  show ?case
  proof (cases "isdigit c")
    case False
    then show ?thesis using unat_lt32 [of out] by (simp add: digit_run_def)
  next
    case True
    let ?x = "of_nat (of_char c - 48) :: 32 word"
    have ux: "unat ?x = digit_val c" using True by (rule unat_digit)
    show ?thesis
    proof (cases "?x \<ge> base")
      case bad: True
      then have "\<not> digit_val c < unat base" using ux by (simp add: word_le_nat_alt)
      then show ?thesis using True bad by (simp add: digit_run_def Let_def)
    next
      case ok: False
      then have lt: "digit_val c < unat base" using ux by (simp add: word_le_nat_alt)
      show ?thesis
      proof (cases "out > (0xFFFFFFFF - ?x) div base")
        case over: True
        then have "unat out * unat base + digit_val c \<ge> 2 ^ 32"
          using overflow_test [OF assms, of ?x out] ux by simp
        then have "digits_from (unat base) (unat out * unat base + digit_val c) (digit_run s) \<ge> 2 ^ 32"
          using digits_from_ge [OF b, of "unat out * unat base + digit_val c" "digit_run s"] by linarith
        then show ?thesis using True over ok by (simp add: digit_run_def Let_def)
      next
        case fits: False
        then have small: "unat out * unat base + unat ?x < 2 ^ 32"
          using overflow_test [OF assms, of ?x out] by simp
        have "unat (out * base + ?x) = unat out * unat base + digit_val c"
          using no_wrap [OF small] ux by simp
        then show ?thesis
          using True ok fits lt Cons.IH [of "out * base + ?x"] by (simp add: digit_run_def Let_def)
      qed
    qed
  qed
qed

lemma read_u32_value:
  assumes "0 < base"
  shows "read_u32 str base =
    (if digit_run str \<noteq> []
        \<and> (\<forall>c \<in> set (digit_run str). digit_val c < unat base)
        \<and> digits_value (unat base) (digit_run str) \<le> 2 ^ 32 - 1
     then Some (dropWhile isdigit str, of_nat (digits_value (unat base) (digit_run str)))
     else None)"
proof (cases str)
  case Nil
  then show ?thesis by (simp add: read_u32_def digit_run_def)
next
  case (Cons c s)
  show ?thesis
  proof (cases "isdigit c")
    case False
    then show ?thesis using Cons by (simp add: read_u32_def digit_run_def)
  next
    case True
    then have ne: "digit_run str \<noteq> []" using Cons by (simp add: digit_run_def)
    have "read_u32 str base = read_u32_loop str 0 base"
      using Cons True by (simp add: read_u32_def)
    then show ?thesis
      using ne read_u32_loop_spec [OF assms, of str 0] by (simp add: digits_value_def)
  qed
qed


text \<open>
  Claim C5. For a base above 0 (8 for the mode, 10 for uid and gid), \<^verbatim>\<open>read_u32\<close>
  succeeds exactly when the string starts with a digit, every digit of the leading run
  is below the base and the value of the run in that base is at most 2^32 - 1; it then
  returns that value and the string behind the run. In every other case it returns
  NULL, so a decimal uid or gid of 2^32 or more is rejected.
\<close>

theorem read_u32_spec:
  assumes "0 < base"
  shows "read_u32 str base =
    (if digit_run str \<noteq> []
        \<and> (\<forall>c \<in> set (digit_run str). digit_val c < unat base)
        \<and> digits_value (unat base) (digit_run str) \<le> 2 ^ 32 - 1
     then Some (dropWhile isdigit str, of_nat (digits_value (unat base) (digit_run str)))
     else None)"
  using assms by (rule read_u32_value)

theorem read_u32_spec_witness:
  "(0 :: 32 word) < 10 \<and> (0 :: 32 word) < 8
   \<and> read_u32 ''4294967295 x'' 10 = Some ('' x'', 4294967295)
   \<and> read_u32 ''4294967296'' 10 = None
   \<and> read_u32 ''0755'' 8 = Some ([], 493)
   \<and> read_u32 ''0758'' 8 = None"
  using read_u32_spec [of 10 "''4294967295 x''"] read_u32_spec [of 10 "''4294967296''"]
    read_u32_spec [of 8 "''0755''"] read_u32_spec [of 8 "''0758''"]
  by (simp add: digit_run_def isdigit_def digits_value_def digit_val_def)

subsection \<open>\<^verbatim>\<open>handle_line\<close>: keyword, root path and mode\<close>

lemma find_hook_keyword:
  assumes "h \<in> set file_list_hooks" and "isspace w"
  shows "find_hook file_list_hooks (keyword h @ w # rest) = Some (h, dropWhile isspace rest)"
  using assms(1) unfolding file_list_hooks_def
  apply (simp only: set_simps insert_iff empty_iff)
  apply (elim disjE FalseE)
         apply (simp_all add: starts_with_word_def assms(2))
  done

lemma handle_line_keyword:
  assumes "h \<in> set file_list_hooks" and "isspace w"
  shows "handle_line cn mt run fs f n (keyword h @ w # rest) bp
         = handle_entry cn mt run fs f n h (dropWhile isspace rest) bp"
  by (simp add: handle_line_def find_hook_keyword [OF assms])

lemma hook_allow_root:
  assumes "h \<in> set file_list_hooks"
  shows "allow_root h \<longleftrightarrow> keyword h = ''dir'' \<or> keyword h = ''glob''"
  using assms unfolding file_list_hooks_def
  apply (simp only: set_simps insert_iff empty_iff)
  apply (elim disjE FalseE)
         apply simp_all
  done

lemma hook_keywords:
  assumes "h \<in> set file_list_hooks"
  shows "keyword h \<in> {''dir'', ''slink'', ''link'', ''nod'', ''pipe'', ''sock'', ''file'', ''glob''}"
  using assms unfolding file_list_hooks_def
  apply (simp only: set_simps insert_iff empty_iff)
  apply (elim disjE FalseE)
         apply simp_all
  done

lemma hook_glob:
  assumes "h \<in> set file_list_hooks"
  shows "is_glob h \<longleftrightarrow> keyword h = ''glob''"
    and "is_glob h \<Longrightarrow> callback h = glob_files \<and> type_mode h = 0 \<and> \<not> need_extra h \<and> allow_root h"
  using assms unfolding file_list_hooks_def
   apply (simp_all only: set_simps insert_iff empty_iff)
   apply (elim disjE FalseE; simp)
  apply (elim disjE FalseE; simp)
  done

lemma handle_entry_root:
  assumes "read_str l = Some (line2, path0)" and "cn path0 = Some []" and "\<not> allow_root h"
  shows "handle_entry cn mt run fs f n h l bp = Inl (f, n, fail_root (keyword h))"
  using assms by (simp add: handle_entry_def)

lemma handle_entry_not_root:
  assumes "allow_root h"
  shows "handle_entry cn mt run fs f n h l bp \<noteq> Inl (f', n', fail_root k)"
  using assms
  by (simp add: handle_entry_def Let_def split: option.splits prod.splits)

text \<open>
  Claim C9. On a line whose keyword is slink, link, nod, pipe, sock or file, a path that
  canonicalizes to the empty string (the root) makes \<^verbatim>\<open>handle_line\<close> fail with the
  "cannot use / as argument" error, whatever follows the path, and so without calling
  the callback. On a line whose keyword is dir or glob that error is never raised.
\<close>

theorem root_path_rejected:
  assumes "h \<in> set file_list_hooks" and "isspace w"
    and "read_str (dropWhile isspace rest) = Some (line2, path0)"
    and "cn path0 = Some []"
  shows "(keyword h \<in> {''slink'', ''link'', ''nod'', ''pipe'', ''sock'', ''file''} \<longrightarrow>
            handle_line cn mt run fs f n (keyword h @ w # rest) bp
              = Inl (f, n, fail_root (keyword h)))
       \<and> (keyword h \<in> {''dir'', ''glob''} \<longrightarrow>
            (\<forall>f' n' k. handle_line cn mt run fs f n (keyword h @ w # rest) bp
                          \<noteq> Inl (f', n', fail_root k)))"
proof (intro conjI impI)
  assume "keyword h \<in> {''slink'', ''link'', ''nod'', ''pipe'', ''sock'', ''file''}"
  then have "\<not> allow_root h"
    using hook_allow_root [OF assms(1)] by auto
  then show "handle_line cn mt run fs f n (keyword h @ w # rest) bp
              = Inl (f, n, fail_root (keyword h))"
    using handle_entry_root [where cn = cn, OF assms(3) assms(4)]
    by (simp add: handle_line_keyword [OF assms(1) assms(2)])
next
  assume "keyword h \<in> {''dir'', ''glob''}"
  then have "allow_root h"
    using hook_allow_root [OF assms(1)] by auto
  then show "\<forall>f' n' k. handle_line cn mt run fs f n (keyword h @ w # rest) bp
                          \<noteq> Inl (f', n', fail_root k)"
    by (simp add: handle_line_keyword [OF assms(1) assms(2)] handle_entry_not_root)
qed

lemma mode_field_None_iff:
  assumes "\<not> (is_glob h \<and> l \<noteq> [] \<and> hd l = CHR ''*'')"
  shows "mode_field h l = None \<longleftrightarrow>
           (digit_run l = [] \<or> (\<exists>c \<in> set (digit_run l). 8 \<le> digit_val c)
            \<or> 4095 < digits_value 8 (digit_run l))"
proof -
  have b: "(0 :: 32 word) < 8" by simp
  let ?v = "digits_value 8 (digit_run l)"
  have big: "(of_nat ?v :: 32 word) > 0xFFF \<longleftrightarrow> 4095 < ?v" if "?v \<le> 2 ^ 32 - 1"
  proof -
    have "unat (of_nat ?v :: 32 word) = ?v" using that by (simp add: unat_of_nat)
    then show ?thesis by (simp add: word_less_nat_alt)
  qed
  show ?thesis
    using assms read_u32_value [OF b, of l] big
    by (auto simp: mode_field_def not_less)
qed

lemma handle_entry_fail_mode_iff:
  assumes "read_str l = Some (line2, path0)" and "cn path0 = Some path"
    and "path \<noteq> [] \<or> allow_root h"
  shows "handle_entry cn mt run fs f n h l bp = Inl (f, n, fail_mode)
           \<longleftrightarrow> mode_field h line2 = None"
  using assms
  by (auto simp: handle_entry_def Let_def split: option.splits prod.splits)

lemma mode_field_rest:
  assumes "\<not> (is_glob h \<and> l \<noteq> [] \<and> hd l = CHR ''*'')"
    and "mode_field h l = Some (l3, m, gf)"
  shows "l3 = dropWhile isdigit l"
proof -
  have b: "(0 :: 32 word) < 8" by simp
  show ?thesis
    using assms read_u32_value [OF b, of l]
    by (auto simp: mode_field_def split: if_splits option.splits)
qed

lemma skip_space_None_iff: "skip_space l = None \<longleftrightarrow> l = [] \<or> \<not> isspace (hd l)"
  by (cases l) (simp_all add: skip_space_def)

lemma handle_entry_junk_after_mode:
  assumes "read_str l = Some (line2, path0)" and "cn path0 = Some path"
    and "path \<noteq> [] \<or> allow_root h"
    and "mode_field h line2 = Some (line3, m, gf)"
    and "line3 = [] \<or> \<not> isspace (hd line3)"
  shows "handle_entry cn mt run fs f n h l bp = Inl (f, n, fail_ent)"
proof -
  have "skip_space line3 = None" using assms(5) by (simp add: skip_space_None_iff)
  then show ?thesis using assms(1-4) by (auto simp: handle_entry_def)
qed

text \<open>
  Claim C4, as amended. On a line whose keyword and path are accepted and that is not a
  glob line with a mode starting with \<^verbatim>\<open>*\<close>, \<^verbatim>\<open>handle_line\<close> fails with the mode
  error exactly when the leading run of digits at the mode position is empty, holds a
  digit 8 or 9, or has an octal value above 07777. When the run is a valid mode and
  anything but a space follows it, or the line ends behind it, the line is rejected as
  an error in the entry description.
\<close>

theorem mode_validation:
  assumes "h \<in> set file_list_hooks" and "isspace w"
    and "read_str (dropWhile isspace rest) = Some (line2, path0)"
    and "cn path0 = Some path"
    and "path \<noteq> [] \<or> allow_root h"
    and "\<not> (is_glob h \<and> line2 \<noteq> [] \<and> hd line2 = CHR ''*'')"
  shows "(handle_line cn mt run fs f n (keyword h @ w # rest) bp = Inl (f, n, fail_mode)
           \<longleftrightarrow> (digit_run line2 = [] \<or> (\<exists>c \<in> set (digit_run line2). 8 \<le> digit_val c)
                \<or> 4095 < digits_value 8 (digit_run line2)))
       \<and> (\<not> (digit_run line2 = [] \<or> (\<exists>c \<in> set (digit_run line2). 8 \<le> digit_val c)
                \<or> 4095 < digits_value 8 (digit_run line2))
           \<and> (dropWhile isdigit line2 = [] \<or> \<not> isspace (hd (dropWhile isdigit line2)))
           \<longrightarrow> handle_line cn mt run fs f n (keyword h @ w # rest) bp = Inl (f, n, fail_ent))"
proof (intro conjI impI)
  show "handle_line cn mt run fs f n (keyword h @ w # rest) bp = Inl (f, n, fail_mode)
           \<longleftrightarrow> (digit_run line2 = [] \<or> (\<exists>c \<in> set (digit_run line2). 8 \<le> digit_val c)
                \<or> 4095 < digits_value 8 (digit_run line2))"
    using handle_entry_fail_mode_iff [where cn = cn, OF assms(3) assms(4) assms(5)]
      mode_field_None_iff [OF assms(6)]
    by (simp add: handle_line_keyword [OF assms(1) assms(2)])
next
  assume a: "\<not> (digit_run line2 = [] \<or> (\<exists>c \<in> set (digit_run line2). 8 \<le> digit_val c)
                \<or> 4095 < digits_value 8 (digit_run line2))
           \<and> (dropWhile isdigit line2 = [] \<or> \<not> isspace (hd (dropWhile isdigit line2)))"
  then have "mode_field h line2 \<noteq> None"
    using mode_field_None_iff [OF assms(6)] by blast
  then obtain line3 m gf where mf: "mode_field h line2 = Some (line3, m, gf)"
    by (cases "mode_field h line2") auto
  have l3: "line3 = dropWhile isdigit line2"
    using mode_field_rest [OF assms(6) mf] .
  have "handle_entry cn mt run fs f n h (dropWhile isspace rest) bp = Inl (f, n, fail_ent)"
    by (rule handle_entry_junk_after_mode [where cn = cn, OF assms(3) assms(4) assms(5) mf])
       (use a l3 in simp)
  then show "handle_line cn mt run fs f n (keyword h @ w # rest) bp = Inl (f, n, fail_ent)"
    by (simp add: handle_line_keyword [OF assms(1) assms(2)])
qed


lemma hooks_nth:
  "file_list_hooks ! 0 \<in> set file_list_hooks" "file_list_hooks ! 6 \<in> set file_list_hooks"
  "file_list_hooks ! 7 \<in> set file_list_hooks"
  "keyword (file_list_hooks ! 0) = ''dir''" "keyword (file_list_hooks ! 6) = ''file''"
  "keyword (file_list_hooks ! 7) = ''glob''"
  "\<not> is_glob (file_list_hooks ! 0)" "\<not> is_glob (file_list_hooks ! 6)"
  "is_glob (file_list_hooks ! 7)"
  "allow_root (file_list_hooks ! 0)" "\<not> allow_root (file_list_hooks ! 6)"
  by (simp_all add: file_list_hooks_def)

theorem root_path_rejected_witness:
  "handle_line example_canon example_mtime example_run [] ''in'' 7 ''file / 0644 0 0'' None
     = Inl (''in'', 7, fail_root ''file'')
   \<and> handle_line example_canon example_mtime example_run [] ''in'' 7 ''dir / 0755 0 0'' None
     \<noteq> Inl (''in'', 7, fail_root ''dir'')"
proof -
  have sp: "isspace CHR '' ''" by (simp add: isspace_def)
  have rs: "read_str (dropWhile isspace ''/ 0644 0 0'') = Some (''0644 0 0'', ''/'')"
    by (simp add: read_str_def isspace_def)
  have rs': "read_str (dropWhile isspace ''/ 0755 0 0'') = Some (''0755 0 0'', ''/'')"
    by (simp add: read_str_def isspace_def)
  have cn: "example_canon ''/'' = Some []" by (simp add: example_canon_def)
  show ?thesis
    using root_path_rejected [where cn = example_canon, OF hooks_nth(2) sp rs cn,
        of example_mtime example_run "[]" "''in''" 7 None]
      root_path_rejected [where cn = example_canon, OF hooks_nth(1) sp rs' cn,
        of example_mtime example_run "[]" "''in''" 7 None]
    by (simp add: hooks_nth)
qed

theorem mode_validation_witness:
  "handle_line example_canon example_mtime example_run [] ''in'' 2 ''dir /a 17777 0 0'' None
     = Inl (''in'', 2, fail_mode)
   \<and> handle_line example_canon example_mtime example_run [] ''in'' 2 ''dir /a 0755 0 0'' None
     \<noteq> Inl (''in'', 2, fail_mode)
   \<and> handle_line example_canon example_mtime example_run [] ''in'' 2 ''dir /a 0644q 0 0'' None
     = Inl (''in'', 2, fail_ent)"
proof -
  have sp: "isspace CHR '' ''" by (simp add: isspace_def)
  have rs: "read_str (dropWhile isspace ''/a 17777 0 0'') = Some (''17777 0 0'', ''/a'')"
    by (simp add: read_str_def isspace_def)
  have rs': "read_str (dropWhile isspace ''/a 0755 0 0'') = Some (''0755 0 0'', ''/a'')"
    by (simp add: read_str_def isspace_def)
  have rs'': "read_str (dropWhile isspace ''/a 0644q 0 0'') = Some (''0644q 0 0'', ''/a'')"
    by (simp add: read_str_def isspace_def)
  have cn: "example_canon ''/a'' = Some ''a''" by (simp add: example_canon_def)
  have ne: "''a'' \<noteq> [] \<or> allow_root (file_list_hooks ! 0)" by simp
  have ng: "\<not> (is_glob (file_list_hooks ! 0) \<and> ''17777 0 0'' \<noteq> [] \<and> hd ''17777 0 0'' = CHR ''*'')"
    by simp
  have ng': "\<not> (is_glob (file_list_hooks ! 0) \<and> ''0755 0 0'' \<noteq> [] \<and> hd ''0755 0 0'' = CHR ''*'')"
    by simp
  have ng'': "\<not> (is_glob (file_list_hooks ! 0) \<and> ''0644q 0 0'' \<noteq> []
                 \<and> hd ''0644q 0 0'' = CHR ''*'')"
    by simp
  show ?thesis
    using mode_validation [where cn = example_canon, OF hooks_nth(1) sp rs cn ne ng,
        of example_mtime example_run "[]" "''in''" 2 None]
      mode_validation [where cn = example_canon, OF hooks_nth(1) sp rs' cn ne ng',
        of example_mtime example_run "[]" "''in''" 2 None]
      mode_validation [where cn = example_canon, OF hooks_nth(1) sp rs'' cn ne ng'',
        of example_mtime example_run "[]" "''in''" 2 None]
    by (simp add: hooks_nth digit_run_def isdigit_def isspace_def digit_val_def digits_value_def)
qed

text \<open>
  The claim as stated fails for a mode field that starts with a valid octal number and
  goes on with other characters: the field \<^verbatim>\<open>0755x\<close> is not an octal numeral, yet the
  line is rejected as an "error in entry description" (\<^verbatim>\<open>fail_ent\<close>, from the
  \<^verbatim>\<open>skip_space\<close> behind the mode), not with the mode error.
\<close>

theorem mode_error_counterexample:
  "\<not> octal_numeral (mode_field_text ''0755x 0 0'')
   \<and> handle_line example_canon example_mtime example_run [] ''in'' 2 ''dir /a 0755x 0 0'' None
       = Inl (''in'', 2, fail_ent)"
proof -
  have sp: "isspace CHR '' ''" by (simp add: isspace_def)
  have rs: "read_str (dropWhile isspace ''/a 0755x 0 0'') = Some (''0755x 0 0'', ''/a'')"
    by (simp add: read_str_def isspace_def)
  have cn: "example_canon ''/a'' = Some ''a''" by (simp add: example_canon_def)
  have b: "(0 :: 32 word) < 8" by simp
  have ru: "read_u32 ''0755x 0 0'' 8 = Some (''x 0 0'', 493)"
    using read_u32_value [OF b, of "''0755x 0 0''"]
    by (simp add: digit_run_def isdigit_def digit_val_def digits_value_def)
  have "handle_entry example_canon example_mtime example_run [] ''in'' 2 (file_list_hooks ! 0)
          (dropWhile isspace ''/a 0755x 0 0'') None = Inl (''in'', 2, fail_ent)"
    using rs cn ru
    by (simp add: handle_entry_def mode_field_def hooks_nth skip_space_def isspace_def)
  moreover have "\<not> octal_numeral (mode_field_text ''0755x 0 0'')"
    by (simp add: octal_numeral_def mode_field_text_def isspace_def isdigit_def)
  ultimately show ?thesis
    using handle_line_keyword [OF hooks_nth(1) sp, of example_canon example_mtime example_run
        "[]" "''in''" 2 "''/a 0755x 0 0''" None]
    by (simp add: hooks_nth)
qed

subsection \<open>\<^verbatim>\<open>handle_line\<close>: the mode, uid and gid fields\<close>

lemma isspace_not_digit: "isspace c \<Longrightarrow> \<not> isdigit c"
  by (auto simp: isspace_def isdigit_def)

lemma star_not_digit: "\<not> isdigit CHR ''*''" "\<not> isspace CHR ''*''"
  by (simp_all add: isdigit_def isspace_def)

lemma dropWhile_no_lead: "r = [] \<or> \<not> P (hd r) \<Longrightarrow> dropWhile P r = r"
  by (cases r) auto

lemma takeWhile_no_lead: "r = [] \<or> \<not> P (hd r) \<Longrightarrow> takeWhile P r = []"
  by (cases r) auto

lemma skip_space_spaces:
  assumes "spaces s" and "r = [] \<or> \<not> isspace (hd r)"
  shows "skip_space (s @ r) = Some r"
proof -
  obtain c s' where s: "s = c # s'" "isspace c"
    using assms(1) by (cases s) (auto simp: spaces_def)
  have "dropWhile isspace (s @ r) = dropWhile isspace r"
    using assms(1) by (simp add: spaces_def dropWhile_append2)
  then show ?thesis
    using s dropWhile_no_lead [where P = isspace, OF assms(2)] by (simp add: skip_space_def)
qed

lemma field_ok_hd:
  assumes "field_ok b lim fld"
  shows "fld \<noteq> []" "isdigit (hd fld)" "fld \<noteq> ''*''" "\<not> isspace (hd fld)"
proof -
  show ne: "fld \<noteq> []" using assms by (simp add: field_ok_def)
  show d: "isdigit (hd fld)" using assms ne by (cases fld) (auto simp: field_ok_def)
  show "fld \<noteq> ''*''" using d star_not_digit by auto
  show "\<not> isspace (hd fld)" using d isspace_not_digit by blast
qed

lemma read_u32_field:
  assumes "field_ok (unat base) lim fld" and "lim < 2 ^ 32" and "r = [] \<or> \<not> isdigit (hd r)"
    and "0 < base"
  shows "read_u32 (fld @ r) base = Some (r, of_nat (digits_value (unat base) fld))"
proof -
  have alld: "\<forall>c \<in> set fld. isdigit c" using assms(1) by (simp add: field_ok_def)
  have run: "digit_run (fld @ r) = fld"
    using alld takeWhile_no_lead [where P = isdigit, OF assms(3)] by (simp add: digit_run_def takeWhile_append2)
  have rest: "dropWhile isdigit (fld @ r) = r"
    using alld dropWhile_no_lead [where P = isdigit, OF assms(3)] by (simp add: dropWhile_append2)
  show ?thesis
    using assms(1,2) run rest read_u32_value [OF assms(4), of "fld @ r"]
    by (auto simp: field_ok_def)
qed

lemma field_value_small:
  assumes "field_ok 8 4095 m"
  shows "\<not> (of_nat (digits_value 8 m) :: 32 word) > 0xFFF"
proof -
  have "digits_value 8 m \<le> 4095" using assms by (simp add: field_ok_def)
  then have "unat (of_nat (digits_value 8 m) :: 32 word) = digits_value 8 m"
    by (simp add: unat_of_nat)
  then show ?thesis using \<open>digits_value 8 m \<le> 4095\<close> by (simp add: word_less_nat_alt)
qed

lemma mode_field_number:
  assumes "field_ok 8 4095 m" and "r = [] \<or> isspace (hd r)"
  shows "mode_field h (m @ r) = Some (r, of_nat (digits_value 8 m), {})"
proof -
  have b: "(0 :: 32 word) < 8" by simp
  have r: "r = [] \<or> \<not> isdigit (hd r)" using assms(2) isspace_not_digit by blast
  have ok: "field_ok (unat (8 :: 32 word)) 4095 m" using assms(1) by simp
  have "read_u32 (m @ r) 8 = Some (r, of_nat (digits_value 8 m))"
    using read_u32_field [OF ok _ r b] by simp
  moreover have "hd (m @ r) \<noteq> CHR ''*''"
    using field_ok_hd(1,2) [OF assms(1)] star_not_digit by (cases m) auto
  ultimately show ?thesis
    using field_value_small [OF assms(1)] by (simp add: mode_field_def)
qed

lemma id_field_number:
  assumes "field_ok 10 (2 ^ 32 - 1) u" and "r = [] \<or> isspace (hd r)"
  shows "id_field h k (u @ r) = Some (r, of_nat (digits_value 10 u), {})"
proof -
  have b: "(0 :: 32 word) < 10" by simp
  have r: "r = [] \<or> \<not> isdigit (hd r)" using assms(2) isspace_not_digit by blast
  have ok: "field_ok (unat (10 :: 32 word)) (2 ^ 32 - 1) u" using assms(1) by simp
  have "read_u32 (u @ r) 10 = Some (r, of_nat (digits_value 10 u))"
    using read_u32_field [OF ok _ r b] by simp
  moreover have "hd (u @ r) \<noteq> CHR ''*''"
    using field_ok_hd(1,2) [OF assms(1)] star_not_digit by (cases u) auto
  ultimately show ?thesis by (simp add: id_field_def)
qed

lemma mode_field_star:
  "mode_field h (''*'' @ r) = (if is_glob h then Some (r, 0, {DIR_SCAN_KEEP_MODE}) else None)"
  by (simp add: mode_field_def read_u32_def star_not_digit)

lemma id_field_star:
  "id_field h k (''*'' @ r) = (if is_glob h then Some (r, 0, {k}) else None)"
  by (simp add: id_field_def read_u32_def star_not_digit)

lemma mode_field_glob:
  assumes "is_glob h" and "m = ''*'' \<or> field_ok 8 4095 m" and "r = [] \<or> isspace (hd r)"
  shows "mode_field h (m @ r) = Some (r, field_value 8 m, keep_flag DIR_SCAN_KEEP_MODE m)"
proof (cases "m = ''*''")
  case True
  then show ?thesis
    using assms(1) mode_field_star [of h r] by (simp add: field_value_def keep_flag_def)
next
  case False
  then have ok: "field_ok 8 4095 m" using assms(2) by simp
  show ?thesis
    using False mode_field_number [OF ok assms(3)] by (simp add: field_value_def keep_flag_def)
qed

lemma id_field_glob:
  assumes "is_glob h" and "u = ''*'' \<or> field_ok 10 (2 ^ 32 - 1) u" and "r = [] \<or> isspace (hd r)"
  shows "id_field h k (u @ r) = Some (r, field_value 10 u, keep_flag k u)"
proof (cases "u = ''*''")
  case True
  then show ?thesis
    using assms(1) id_field_star [of h k r] by (simp add: field_value_def keep_flag_def)
next
  case False
  then have ok: "field_ok 10 (2 ^ 32 - 1) u" using assms(2) by simp
  show ?thesis
    using False id_field_number [OF ok assms(3)] by (simp add: field_value_def keep_flag_def)
qed

lemma field_no_lead_space:
  assumes "u = ''*'' \<or> field_ok b lim u"
  shows "u @ r = [] \<or> \<not> isspace (hd (u @ r))"
proof (cases "u = ''*''")
  case True
  then show ?thesis by (simp add: star_not_digit)
next
  case False
  then have ok: "field_ok b lim u" using assms by simp
  show ?thesis using field_ok_hd(1,4) [OF ok] by (cases u) auto
qed

lemma spaces_lead: "spaces s \<Longrightarrow> s @ r = [] \<or> isspace (hd (s @ r))"
  by (cases s) (auto simp: spaces_def)

lemma extra_of_tail:
  assumes "tail = [] \<or> isspace (hd tail)"
  shows "(case skip_space tail of None \<Rightarrow> None
          | Some line8 \<Rightarrow> if line8 \<noteq> [] then Some line8 else None) = extra_of tail"
  using assms by (cases tail) (auto simp: skip_space_def extra_of_def)

lemma handle_entry_glob_fields:
  assumes glob: "is_glob h" "callback h = glob_files" "type_mode h = 0" "\<not> need_extra h" "allow_root h"
    and rs: "read_str l = Some (m @ s1 @ u @ s2 @ g @ tail, path0)"
    and cn: "cn path0 = Some path"
    and sp: "spaces s1" "spaces s2" "tail = [] \<or> isspace (hd tail)"
    and m: "m = ''*'' \<or> field_ok 8 4095 m"
    and u: "u = ''*'' \<or> field_ok 10 (2 ^ 32 - 1) u"
    and g: "g = ''*'' \<or> field_ok 10 (2 ^ 32 - 1) g"
  shows "handle_entry cn mt run fs f n h l bp =
           Inr (run glob_files fs f n path
                  \<lparr>st_mtime = mt fs, st_mode = field_value 8 m,
                   st_uid = field_value 10 u, st_gid = field_value 10 g\<rparr>
                  bp
                  (keep_flag DIR_SCAN_KEEP_MODE m \<union> keep_flag DIR_SCAN_KEEP_UID u
                     \<union> keep_flag DIR_SCAN_KEEP_GID g)
                  (extra_of tail))"
proof -
  have mf: "mode_field h (m @ s1 @ u @ s2 @ g @ tail)
              = Some (s1 @ u @ s2 @ g @ tail, field_value 8 m, keep_flag DIR_SCAN_KEEP_MODE m)"
    using mode_field_glob [OF glob(1) m spaces_lead [OF sp(1)]] by simp
  have sk1: "skip_space (s1 @ u @ s2 @ g @ tail) = Some (u @ s2 @ g @ tail)"
    using skip_space_spaces [OF sp(1) field_no_lead_space [OF u]] by simp
  have uf: "id_field h DIR_SCAN_KEEP_UID (u @ s2 @ g @ tail)
              = Some (s2 @ g @ tail, field_value 10 u, keep_flag DIR_SCAN_KEEP_UID u)"
    using id_field_glob [OF glob(1) u spaces_lead [OF sp(2)]] by simp
  have sk2: "skip_space (s2 @ g @ tail) = Some (g @ tail)"
    using skip_space_spaces [OF sp(2) field_no_lead_space [OF g]] by simp
  have gf: "id_field h DIR_SCAN_KEEP_GID (g @ tail)
              = Some (tail, field_value 10 g, keep_flag DIR_SCAN_KEEP_GID g)"
    using id_field_glob [OF glob(1) g sp(3)] by simp
  show ?thesis
    unfolding handle_entry_def
    by (simp add: rs cn glob mf sk1 uf sk2 gf extra_of_tail [OF sp(3)] Let_def)
qed

lemma handle_entry_star_rejected:
  assumes ng: "\<not> is_glob h"
    and rs: "read_str l = Some (m @ s1 @ u @ s2 @ g @ tail, path0)"
    and cn: "cn path0 = Some path"
    and sp: "spaces s1" "spaces s2" "tail = [] \<or> isspace (hd tail)"
    and m: "m = ''*'' \<or> field_ok 8 4095 m"
    and u: "u = ''*'' \<or> field_ok 10 (2 ^ 32 - 1) u"
    and g: "g = ''*'' \<or> field_ok 10 (2 ^ 32 - 1) g"
    and star: "m = ''*'' \<or> u = ''*'' \<or> g = ''*''"
  shows "handle_entry cn mt run fs f n h l bp =
           Inl (f, n, if path = [] \<and> \<not> allow_root h then fail_root (keyword h)
                      else if m = ''*'' then fail_mode else fail_uid_gid)"
proof (cases "path = [] \<and> \<not> allow_root h")
  case True
  then show ?thesis by (simp add: handle_entry_def rs cn)
next
  case root_ok: False
  show ?thesis
  proof (cases "m = ''*''")
    case True
    then have "mode_field h (m @ s1 @ u @ s2 @ g @ tail) = None"
      using ng mode_field_star [of h "s1 @ u @ s2 @ g @ tail"] by simp
    then show ?thesis using root_ok True by (simp add: handle_entry_def rs cn)
  next
    case mnum: False
    then have mok: "field_ok 8 4095 m" using m by simp
    have mf: "mode_field h (m @ s1 @ u @ s2 @ g @ tail)
                = Some (s1 @ u @ s2 @ g @ tail, of_nat (digits_value 8 m), {})"
      using mode_field_number [OF mok spaces_lead [OF sp(1)]] by simp
    have sk1: "skip_space (s1 @ u @ s2 @ g @ tail) = Some (u @ s2 @ g @ tail)"
      using skip_space_spaces [OF sp(1) field_no_lead_space [OF u]] by simp
    show ?thesis
    proof (cases "u = ''*''")
      case True
      then have "id_field h DIR_SCAN_KEEP_UID (u @ s2 @ g @ tail) = None"
        using ng id_field_star [of h DIR_SCAN_KEEP_UID "s2 @ g @ tail"] by simp
      then show ?thesis
        using root_ok mnum by (simp add: handle_entry_def rs cn mf sk1)
    next
      case unum: False
      then have uok: "field_ok 10 (2 ^ 32 - 1) u" using u by simp
      have uf: "id_field h DIR_SCAN_KEEP_UID (u @ s2 @ g @ tail)
                  = Some (s2 @ g @ tail, of_nat (digits_value 10 u), {})"
        using id_field_number [OF uok spaces_lead [OF sp(2)]] by simp
      have sk2: "skip_space (s2 @ g @ tail) = Some (g @ tail)"
        using skip_space_spaces [OF sp(2) field_no_lead_space [OF g]] by simp
      have "g = ''*''" using star mnum unum by simp
      then have "id_field h DIR_SCAN_KEEP_GID (g @ tail) = None"
        using ng id_field_star [of h DIR_SCAN_KEEP_GID tail] by simp
      then show ?thesis
        using root_ok mnum by (simp add: handle_entry_def rs cn mf sk1 uf sk2)
    qed
  qed
qed


text \<open>
  Claim C7. Take a line with an accepted keyword and path whose mode, uid and gid fields
  are each \<^verbatim>\<open>*\<close> or a valid number, separated by spaces. If the keyword is glob the
  line is accepted: the callback is called with 0 for every field that is \<^verbatim>\<open>*\<close>
  (the parsed number otherwise) and with exactly the flags
  \<^verbatim>\<open>DIR_SCAN_KEEP_MODE\<close>, \<^verbatim>\<open>DIR_SCAN_KEEP_UID\<close>, \<^verbatim>\<open>DIR_SCAN_KEEP_GID\<close> of the
  fields that are \<^verbatim>\<open>*\<close>. For every other keyword a \<^verbatim>\<open>*\<close> in any of the three
  fields makes the line fail, with the mode error or the uid/gid error (or, before
  that, the root path error).
\<close>

theorem star_fields:
  assumes "h \<in> set file_list_hooks" and "isspace w"
    and "read_str (dropWhile isspace rest) = Some (m @ s1 @ u @ s2 @ g @ tail, path0)"
    and "cn path0 = Some path"
    and "spaces s1" and "spaces s2" and "tail = [] \<or> isspace (hd tail)"
    and "m = ''*'' \<or> field_ok 8 4095 m"
    and "u = ''*'' \<or> field_ok 10 (2 ^ 32 - 1) u"
    and "g = ''*'' \<or> field_ok 10 (2 ^ 32 - 1) g"
  shows "(keyword h = ''glob'' \<longrightarrow>
            handle_line cn mt run fs f n (keyword h @ w # rest) bp =
              Inr (run glob_files fs f n path
                     \<lparr>st_mtime = mt fs, st_mode = field_value 8 m,
                      st_uid = field_value 10 u, st_gid = field_value 10 g\<rparr>
                     bp
                     (keep_flag DIR_SCAN_KEEP_MODE m \<union> keep_flag DIR_SCAN_KEEP_UID u
                        \<union> keep_flag DIR_SCAN_KEEP_GID g)
                     (extra_of tail)))
       \<and> (keyword h \<noteq> ''glob'' \<and> (m = ''*'' \<or> u = ''*'' \<or> g = ''*'') \<longrightarrow>
            handle_line cn mt run fs f n (keyword h @ w # rest) bp =
              Inl (f, n, if path = [] \<and> \<not> allow_root h then fail_root (keyword h)
                         else if m = ''*'' then fail_mode else fail_uid_gid))"
proof (intro conjI impI)
  assume "keyword h = ''glob''"
  then have glob: "is_glob h" using hook_glob(1) [OF assms(1)] by simp
  note props = hook_glob(2) [OF assms(1) glob]
  show "handle_line cn mt run fs f n (keyword h @ w # rest) bp =
              Inr (run glob_files fs f n path
                     \<lparr>st_mtime = mt fs, st_mode = field_value 8 m,
                      st_uid = field_value 10 u, st_gid = field_value 10 g\<rparr>
                     bp
                     (keep_flag DIR_SCAN_KEEP_MODE m \<union> keep_flag DIR_SCAN_KEEP_UID u
                        \<union> keep_flag DIR_SCAN_KEEP_GID g)
                     (extra_of tail))"
    unfolding handle_line_keyword [OF assms(1) assms(2)]
    by (rule handle_entry_glob_fields [where cn = cn and ?path0.0 = path0 and m = m
          and ?s1.0 = s1 and u = u and ?s2.0 = s2 and g = g and tail = tail])
       (use glob props assms in simp_all)
next
  assume a: "keyword h \<noteq> ''glob'' \<and> (m = ''*'' \<or> u = ''*'' \<or> g = ''*'')"
  then have ng: "\<not> is_glob h" using hook_glob(1) [OF assms(1)] by simp
  show "handle_line cn mt run fs f n (keyword h @ w # rest) bp =
              Inl (f, n, if path = [] \<and> \<not> allow_root h then fail_root (keyword h)
                         else if m = ''*'' then fail_mode else fail_uid_gid)"
    unfolding handle_line_keyword [OF assms(1) assms(2)]
    by (rule handle_entry_star_rejected [where cn = cn and ?path0.0 = path0 and m = m
          and ?s1.0 = s1 and u = u and ?s2.0 = s2 and g = g and tail = tail])
       (use ng a assms in simp_all)
qed

theorem star_fields_witness:
  "handle_line example_canon example_mtime example_run [] ''in'' 4 ''glob /x * 5 * -type f .'' None
     = Inr (0, [(glob_files, ''x'', \<lparr>st_mtime = 0, st_mode = 0, st_uid = 5, st_gid = 0\<rparr>,
                 {DIR_SCAN_KEEP_MODE, DIR_SCAN_KEEP_GID}, Some ''-type f .'')])
   \<and> handle_line example_canon example_mtime example_run [] ''in'' 4 ''file /x 0644 * 0'' None
     = Inl (''in'', 4, fail_uid_gid)"
proof -
  have sp: "isspace CHR '' ''" by (simp add: isspace_def)
  have rs: "read_str (dropWhile isspace ''/x * 5 * -type f .'')
              = Some (''*'' @ '' '' @ ''5'' @ '' '' @ ''*'' @ '' -type f .'', ''/x'')"
    by (simp add: read_str_def isspace_def)
  have rs': "read_str (dropWhile isspace ''/x 0644 * 0'')
              = Some (''0644'' @ '' '' @ ''*'' @ '' '' @ ''0'' @ [], ''/x'')"
    by (simp add: read_str_def isspace_def)
  have cn: "example_canon ''/x'' = Some ''x''" by (simp add: example_canon_def)
  have s1: "spaces '' ''" by (simp add: spaces_def isspace_def)
  have t: "'' -type f .'' = [] \<or> isspace (hd '' -type f .'')" by (simp add: isspace_def)
  have t': "([] :: string) = [] \<or> isspace (hd [])" by simp
  have star: "''*'' = ''*'' \<or> field_ok b l ''*''" for b l by simp
  have five: "''5'' = ''*'' \<or> field_ok 10 (2 ^ 32 - 1) ''5''"
    by (simp add: field_ok_def isdigit_def digit_val_def digits_value_def)
  have zero: "''0'' = ''*'' \<or> field_ok 10 (2 ^ 32 - 1) ''0''"
    by (simp add: field_ok_def isdigit_def digit_val_def digits_value_def)
  have mode: "''0644'' = ''*'' \<or> field_ok 8 4095 ''0644''"
    by (simp add: field_ok_def isdigit_def digit_val_def digits_value_def)
  show ?thesis
    using star_fields [where cn = example_canon, OF hooks_nth(3) sp rs cn s1 s1 t star five star,
        of example_mtime example_run "[]" "''in''" 4 None]
      star_fields [where cn = example_canon, OF hooks_nth(2) sp rs' cn s1 s1 t' mode star zero,
        of example_mtime example_run "[]" "''in''" 4 None]
    by (simp add: hooks_nth field_value_def keep_flag_def extra_of_def isspace_def
        example_run_def example_mtime_def digits_value_def digit_val_def insert_commute)
qed

subsection \<open>\<^verbatim>\<open>fstree_from_file_stream\<close>: the first error ends the run\<close>

lemma from_file_loop_Nil:
  "from_file_loop cn mt run f bp e fs [] n = (if e then (-1, fs, None) else (0, fs, None))"
  by (subst from_file_loop.simps) simp

lemma from_file_loop_same:
  assumes "istream_get_line ls e n = istream_get_line ls' e n'"
  shows "from_file_loop cn mt run f bp e fs ls n = from_file_loop cn mt run f bp e fs ls' n'"
  by (subst from_file_loop.simps, subst (2) from_file_loop.simps) (simp add: assms)

lemma from_file_loop_Cons:
  "from_file_loop cn mt run f bp e fs (l # ls) n =
     (let t = dropWhile isspace l in
      if t = [] then from_file_loop cn mt run f bp e fs ls (n + 1)
      else if hd t \<noteq> CHR ''#'' then
        (case handle_line cn mt run fs f n t bp of
           Inl d \<Rightarrow> (-1, fs, Some d)
         | Inr (ret, fs') \<Rightarrow>
             if ret \<noteq> 0 then (-1, fs', None)
             else from_file_loop cn mt run f bp e fs' ls (n + 1))
      else from_file_loop cn mt run f bp e fs ls (n + 1))"
proof (cases "dropWhile isspace l = []")
  case True
  have "istream_get_line (l # ls) e n = istream_get_line ls e (n + 1)"
    using True by (simp del: dropWhile_eq_Nil_conv)
  then have "from_file_loop cn mt run f bp e fs (l # ls) n
               = from_file_loop cn mt run f bp e fs ls (n + 1)"
    by (rule from_file_loop_same)
  then show ?thesis using True by (simp del: dropWhile_eq_Nil_conv)
next
  case False
  then have "istream_get_line (l # ls) e n = GL_Line (dropWhile isspace l) n ls"
    by (simp add: Let_def del: dropWhile_eq_Nil_conv)
  then show ?thesis
    using False
    by (subst from_file_loop.simps) (simp add: Let_def del: dropWhile_eq_Nil_conv)
qed

lemma from_file_loop_append:
  assumes "from_file_loop cn mt run f bp False fs pre n = (0, fs1, d)"
  shows "from_file_loop cn mt run f bp e fs (pre @ post) n
           = from_file_loop cn mt run f bp e fs1 post (n + length pre)"
  using assms
proof (induction pre arbitrary: fs n)
  case Nil
  then show ?case by (simp add: from_file_loop_Nil)
next
  case (Cons l pre)
  let ?t = "dropWhile isspace l"
  show ?case
  proof (cases "?t = [] \<or> hd ?t = CHR ''#''")
    case True
    have step: "from_file_loop cn mt run f bp e' fs (l # xs) n
                  = from_file_loop cn mt run f bp e' fs xs (n + 1)" for e' xs
      using True by (auto simp: from_file_loop_Cons Let_def simp del: dropWhile_eq_Nil_conv)
    have "from_file_loop cn mt run f bp False fs pre (n + 1) = (0, fs1, d)"
      using Cons.prems step [of False pre] by simp
    then have "from_file_loop cn mt run f bp e fs (pre @ post) (n + 1)
                 = from_file_loop cn mt run f bp e fs1 post (n + 1 + length pre)"
      by (rule Cons.IH)
    then show ?thesis using step [of e "pre @ post"] by simp
  next
    case False
    have step: "from_file_loop cn mt run f bp e' fs (l # xs) n
                  = (case handle_line cn mt run fs f n ?t bp of
                       Inl d \<Rightarrow> (-1, fs, Some d)
                     | Inr (ret, fs') \<Rightarrow>
                         if ret \<noteq> 0 then (-1, fs', None)
                         else from_file_loop cn mt run f bp e' fs' xs (n + 1))" for e' xs
      using False by (simp add: from_file_loop_Cons Let_def del: dropWhile_eq_Nil_conv)
    show ?thesis
    proof (cases "handle_line cn mt run fs f n ?t bp")
      case (Inl d')
      then show ?thesis using Cons.prems step [of False pre] by simp
    next
      case (Inr p)
      obtain ret fs' where p: "p = (ret, fs')" by (cases p)
      have ret: "ret = 0"
        using Cons.prems step [of False pre] Inr p by (cases "ret = 0") simp_all
      then have "from_file_loop cn mt run f bp False fs' pre (n + 1) = (0, fs1, d)"
        using Cons.prems step [of False pre] Inr p by simp
      then have "from_file_loop cn mt run f bp e fs' (pre @ post) (n + 1)
                   = from_file_loop cn mt run f bp e fs1 post (n + 1 + length pre)"
        by (rule Cons.IH)
      then show ?thesis using step [of e "pre @ post"] Inr p ret by simp
    qed
  qed
qed

lemma handle_entry_diag:
  "case handle_entry cn mt run fs f n h l bp of
     Inl d \<Rightarrow> fst d = f \<and> fst (snd d) = n | Inr r \<Rightarrow> True"
  by (simp add: handle_entry_def Let_def split: option.split prod.split)

lemma handle_line_diag:
  assumes "handle_line cn mt run fs f n line bp = Inl d"
  shows "fst d = f \<and> fst (snd d) = n"
proof (cases "find_hook file_list_hooks line")
  case None
  then show ?thesis using assms by (auto simp: handle_line_def)
next
  case (Some a)
  obtain h l where a: "a = (h, l)" by (cases a)
  have "handle_entry cn mt run fs f n h l bp = Inl d"
    using assms Some a by (simp add: handle_line_def)
  then show ?thesis
    using handle_entry_diag [where cn = cn and mt = mt and run = run and fs = fs and f = f
        and n = n and h = h and l = l and bp = bp] by simp
qed

text \<open>
  Claim C1. Let the lines \<open>pre\<close> of a stream be processed without error, leaving the
  tree \<open>fs1\<close>, and let the next line \<open>l\<close> (not empty, not a comment) fail, in
  \<^verbatim>\<open>handle_line\<close> itself or in its callback. Then \<^verbatim>\<open>fstree_from_file_stream\<close>
  returns -1 with the outcome of that line, whatever lines \<open>post\<close> follow and however
  the stream ends: no later line is processed. A diagnostic of \<^verbatim>\<open>handle_line\<close>
  carries the file name of the stream and the number of the line in the file, counting
  from 1 and counting the empty lines and comments before it.
\<close>

theorem first_error_halts:
  assumes "fstree_from_file_stream cn mt run fs
             \<lparr>ls_filename = f, ls_lines = pre, ls_io_error = False\<rparr> bp = (0, fs1, d0)"
    and "dropWhile isspace l = t" and "t \<noteq> []" and "hd t \<noteq> CHR ''#''"
    and "handle_line cn mt run fs1 f (Suc (length pre)) t bp = r"
    and "\<forall>fs2. r \<noteq> Inr (0, fs2)"
  shows "fstree_from_file_stream cn mt run fs
           \<lparr>ls_filename = f, ls_lines = pre @ l # post, ls_io_error = e\<rparr> bp
           = (case r of Inl d \<Rightarrow> (-1, fs1, Some d) | Inr (ret, fs2) \<Rightarrow> (-1, fs2, None))
       \<and> (\<forall>d. r = Inl d \<longrightarrow> fst d = f \<and> fst (snd d) = Suc (length pre))"
proof
  have pre: "from_file_loop cn mt run f bp False fs pre 1 = (0, fs1, d0)"
    using assms(1) by (simp add: fstree_from_file_stream_def)
  have "from_file_loop cn mt run f bp e fs (pre @ l # post) 1
          = from_file_loop cn mt run f bp e fs1 (l # post) (1 + length pre)"
    using pre by (rule from_file_loop_append)
  also have "\<dots> = (case handle_line cn mt run fs1 f (Suc (length pre)) t bp of
                       Inl d \<Rightarrow> (-1, fs1, Some d)
                     | Inr (ret, fs') \<Rightarrow>
                         if ret \<noteq> 0 then (-1, fs', None)
                         else from_file_loop cn mt run f bp e fs' post (Suc (length pre) + 1))"
    using assms(2-4) by (simp add: from_file_loop_Cons Let_def del: dropWhile_eq_Nil_conv)
  also have "\<dots> = (case r of Inl d \<Rightarrow> (-1, fs1, Some d) | Inr (ret, fs2) \<Rightarrow> (-1, fs2, None))"
  proof (cases r)
    case (Inl d)
    then show ?thesis using assms(5) by simp
  next
    case (Inr p)
    obtain ret fs2 where p: "p = (ret, fs2)" by (cases p)
    have "ret \<noteq> 0" using assms(6) Inr p by auto
    then show ?thesis using assms(5) Inr p by simp
  qed
  finally show "fstree_from_file_stream cn mt run fs
           \<lparr>ls_filename = f, ls_lines = pre @ l # post, ls_io_error = e\<rparr> bp
           = (case r of Inl d \<Rightarrow> (-1, fs1, Some d) | Inr (ret, fs2) \<Rightarrow> (-1, fs2, None))"
    by (simp add: fstree_from_file_stream_def)
  show "\<forall>d. r = Inl d \<longrightarrow> fst d = f \<and> fst (snd d) = Suc (length pre)"
  proof (intro allI impI)
    fix d
    assume "r = Inl d"
    then have "handle_line cn mt run fs1 f (Suc (length pre)) t bp = Inl d"
      using assms(5) by simp
    then show "fst d = f \<and> fst (snd d) = Suc (length pre)"
      by (rule handle_line_diag)
  qed
qed


lemma example_dir_a:
  "handle_line example_canon example_mtime example_run [] ''in.txt'' n ''dir /a 0755 0 0'' None
     = Inr (0, [(add_generic, ''a'',
                 \<lparr>st_mtime = 0, st_mode = 0x41ED, st_uid = 0, st_gid = 0\<rparr>, {}, None)])"
  by (simp add: handle_line_def file_list_hooks_def starts_with_word_def isspace_def
      handle_entry_def read_str_def example_canon_def mode_field_def id_field_def read_u32_def
      isdigit_def skip_space_def example_run_def example_mtime_def S_IFDIR_def)

lemma example_dir_a_again:
  "handle_line example_canon example_mtime example_run
     [(add_generic, ''a'', \<lparr>st_mtime = 0, st_mode = 0x41ED, st_uid = 0, st_gid = 0\<rparr>, {}, None)]
     ''in.txt'' n ''dir /a 0755 0 0'' None
     = Inr (-1, [(add_generic, ''a'',
                  \<lparr>st_mtime = 0, st_mode = 0x41ED, st_uid = 0, st_gid = 0\<rparr>, {}, None)])"
  by (simp add: handle_line_def file_list_hooks_def starts_with_word_def isspace_def
      handle_entry_def read_str_def example_canon_def mode_field_def id_field_def read_u32_def
      isdigit_def skip_space_def example_run_def example_mtime_def S_IFDIR_def)

lemma example_bad_mode:
  "handle_line example_canon example_mtime example_run fs ''in.txt'' n ''file /b 999 0 0'' None
     = Inl (''in.txt'', n, fail_mode)"
  by (simp add: handle_line_def file_list_hooks_def starts_with_word_def isspace_def
      handle_entry_def read_str_def example_canon_def mode_field_def read_u32_def isdigit_def)

theorem first_error_halts_witness:
  "fstree_from_file_stream example_canon example_mtime example_run []
     \<lparr>ls_filename = ''in.txt'',
      ls_lines = [''dir /a 0755 0 0'', [], ''  # c'', ''file /b 999 0 0'', ''dir /c 0755 0 0''],
      ls_io_error = False\<rparr> None
     = (-1, [(add_generic, ''a'',
              \<lparr>st_mtime = 0, st_mode = 0x41ED, st_uid = 0, st_gid = 0\<rparr>, {}, None)],
        Some (''in.txt'', 4, fail_mode))
   \<and> fstree_from_file_stream example_canon example_mtime example_run []
     \<lparr>ls_filename = ''in.txt'',
      ls_lines = [''dir /a 0755 0 0'', ''dir /a 0755 0 0'', ''dir /c 0755 0 0''],
      ls_io_error = False\<rparr> None
     = (-1, [(add_generic, ''a'',
              \<lparr>st_mtime = 0, st_mode = 0x41ED, st_uid = 0, st_gid = 0\<rparr>, {}, None)],
        None)"
proof -
  let ?a = "(add_generic, ''a'',
             \<lparr>st_mtime = 0, st_mode = 0x41ED :: 32 word, st_uid = 0 :: 32 word,
              st_gid = 0 :: 32 word\<rparr>, {} :: scan_flags, None :: string option)"
  have pre: "fstree_from_file_stream example_canon example_mtime example_run []
               \<lparr>ls_filename = ''in.txt'', ls_lines = [''dir /a 0755 0 0'', [], ''  # c''],
                ls_io_error = False\<rparr> None = (0, [?a], None)"
    by (simp add: fstree_from_file_stream_def from_file_loop_Cons from_file_loop_Nil
        example_dir_a isspace_def)
  have pre': "fstree_from_file_stream example_canon example_mtime example_run []
               \<lparr>ls_filename = ''in.txt'', ls_lines = [''dir /a 0755 0 0''],
                ls_io_error = False\<rparr> None = (0, [?a], None)"
    by (simp add: fstree_from_file_stream_def from_file_loop_Cons from_file_loop_Nil
        example_dir_a isspace_def)
  have t: "dropWhile isspace ''file /b 999 0 0'' = ''file /b 999 0 0''"
    and t': "dropWhile isspace ''dir /a 0755 0 0'' = ''dir /a 0755 0 0''"
    by (simp_all add: isspace_def)
  have ne: "''file /b 999 0 0'' \<noteq> []" and ne': "''dir /a 0755 0 0'' \<noteq> []" by simp_all
  have nc: "hd ''file /b 999 0 0'' \<noteq> CHR ''#''" and nc': "hd ''dir /a 0755 0 0'' \<noteq> CHR ''#''"
    by simp_all
  have nz: "\<forall>fs2. (Inl (''in.txt'', Suc (length [''dir /a 0755 0 0'', [], ''  # c'']), fail_mode)
                    :: diag + int \<times> example_tree) \<noteq> Inr (0, fs2)"
    and nz': "\<forall>fs2. (Inr (-1, [?a]) :: diag + int \<times> example_tree) \<noteq> Inr (0, fs2)"
    by simp_all
  show ?thesis
    using first_error_halts [where cn = example_canon, OF pre t ne nc example_bad_mode nz,
        of "[''dir /c 0755 0 0'']" False]
      first_error_halts [where cn = example_canon, OF pre' t' ne' nc' example_dir_a_again nz',
        of "[''dir /c 0755 0 0'']" False]
    by simp
qed

subsection \<open>The option loop of \<^verbatim>\<open>glob_files\<close>\<close>












lemma kind_flag_kinds: "kind_flag k \<in> kind_exclusion_flags"
  by (simp add: kind_flag_def kind_exclusion_flags_def)
















subsection \<open>Quoted paths and patterns\<close>

lemma dq_text_simps [simp]:
  "dq_text [] = []"
  "dq_text (Plain c # items) = c # dq_text items"
  "dq_text (Esc c # items) = BSL # c # dq_text items"
  by (simp_all add: dq_text_def)

lemma read_str_quoted_items:
  assumes "dq_ok items"
  shows "read_str_quoted (dq_text items @ DQ # after) acc
           = (if after \<noteq> [] \<and> isspace (hd after)
              then Some (dropWhile isspace after, acc @ map dq_value items) else None)"
  using assms
proof (induction items arbitrary: acc rule: dq_ok.induct)
  case 1
  then show ?case by simp
next
  case (2 c items)
  then show ?case by auto
next
  case (3 c items)
  have ok: "dq_ok items" and c: "c \<noteq> DQ" using "3.prems" by simp_all
  have "read_str_quoted (c # dq_text items @ DQ # after) acc
          = read_str_quoted (dq_text items @ DQ # after) (acc @ [c])"
  proof (cases "c = BSL")
    case True
    then obtain d items' where items: "items = Plain d # items'" and d: "d \<noteq> BSL"
      using "3.prems" by (auto split: list.splits dq_item.splits)
    have "d \<noteq> DQ" using ok items by simp
    then show ?thesis using True items d by simp
  next
    case False
    then show ?thesis using c by simp
  qed
  then show ?case using "3.IH" [OF ok, of "acc @ [c]"] by simp
qed

lemma read_str_quoted_closed:
  "read_str_quoted s acc = Some r
     \<Longrightarrow> \<exists>items after. dq_ok items \<and> s = dq_text items @ DQ # after"
proof (induction s acc rule: read_str_quoted.induct)
  case (1 acc)
  then show ?case by simp
next
  case (2 c str acc)
  show ?case
  proof (cases "c = DQ")
    case True
    have "dq_ok [] \<and> c # str = dq_text [] @ DQ # str" using True by simp
    then show ?thesis by blast
  next
    case nq: False
    show ?thesis
    proof (cases "c = BSL \<and> str \<noteq> [] \<and> (hd str = DQ \<or> hd str = BSL)")
      case True
      then have "read_str_quoted (tl str) (acc @ [hd str]) = Some r"
        using "2.prems" nq by simp
      then obtain items after where ok: "dq_ok items"
        and s: "tl str = dq_text items @ DQ # after"
        using "2.IH"(1) [OF nq True] by blast
      have "dq_ok (Esc (hd str) # items)" using ok True by simp
      moreover have "c # str = dq_text (Esc (hd str) # items) @ DQ # after"
        using True s by (cases str) simp_all
      ultimately show ?thesis by blast
    next
      case False
      then have "read_str_quoted str (acc @ [c]) = Some r"
        using "2.prems" nq by (simp split: if_splits)
      then obtain items after where ok: "dq_ok items"
        and s: "str = dq_text items @ DQ # after"
        using "2.IH"(2) [OF nq False] by blast
      have "c = BSL \<longrightarrow> (case items of Plain d # _ \<Rightarrow> d \<noteq> BSL | _ \<Rightarrow> False)"
      proof
        assume b: "c = BSL"
        then have h: "hd str \<noteq> DQ" "hd str \<noteq> BSL" using False s by auto
        show "case items of Plain d # _ \<Rightarrow> d \<noteq> BSL | _ \<Rightarrow> False"
          using h s by (cases items; cases "hd items") auto
      qed
      then have "dq_ok (Plain c # items)" using ok nq by simp
      moreover have "c # str = dq_text (Plain c # items) @ DQ # after" using s by simp
      ultimately show ?thesis by blast
    qed
  qed
qed

lemma read_str_plain:
  assumes "isspace w" and "tok \<noteq> []" and "hd tok \<noteq> DQ" and "\<forall>c \<in> set tok. \<not> isspace c"
  shows "read_str (tok @ w # rest) = Some (dropWhile isspace rest, tok)"
proof -
  have t: "takeWhile (\<lambda>c. \<not> isspace c) (tok @ w # rest) = tok"
    using assms(1,4) by (simp add: takeWhile_append2)
  have d: "dropWhile (\<lambda>c. \<not> isspace c) (tok @ w # rest) = w # rest"
    using assms(1,4) by (simp add: dropWhile_append2)
  show ?thesis using assms(2,3) t d by (simp add: read_str_def)
qed

lemma quote_remove_quoted:
  assumes "q \<in> {DQ, SQ}" and "q \<notin> set pat"
  shows "quote_remove (take (name_string_length (q # pat @ q # r)) (q # pat @ q # r)) = pat"
proof -
  have tw: "takeWhile (\<lambda>c. c \<noteq> q) (pat @ q # x) = pat" for x
    using assms(2) by (induction pat) auto
  have len: "name_string_length (q # pat @ q # r) = length pat + 2"
    using assms(1) tw [of r] by (auto simp: name_string_length_def Let_def)
  have "take (length pat + 2) (q # pat @ q # r) = q # pat @ [q]" by simp
  then show ?thesis
    using assms(1) len tw [of "[]"] by (auto simp: quote_remove_def)
qed

text \<open>
  Claim C8, as amended. (1) A path field that starts with a double quote, whose body is
  a well-formed sequence of plain characters and escape sequences closed by a double
  quote, is accepted exactly when a space follows the closing quote; its value is the
  body with the quotes removed, every escape sequence (a backslash before a double
  quote or a backslash) replaced by the double quote or backslash it stands for, and
  every other character, a backslash before another character included, kept as it
  is. (2) No other field
  that starts with a double quote is accepted: a field that is read has such a body
  and closing quote. (3) A single quote has no special meaning in a path field: a
  field that does not start with a double quote ends at the first space and keeps its
  quotes. (4) A pattern of \<^verbatim>\<open>-name\<close> or \<^verbatim>\<open>-path\<close> enclosed in double or single
  quotes is taken as it is up to the next occurrence of the same quote, quotes removed,
  with no escapes.
\<close>

theorem quoted_fields:
  "(dq_ok items \<longrightarrow>
      read_str (DQ # dq_text items @ DQ # after)
        = (if after \<noteq> [] \<and> isspace (hd after)
           then Some (dropWhile isspace after, map dq_value items) else None))
   \<and> (read_str (DQ # s) \<noteq> None \<longrightarrow>
        (\<exists>items' after'. dq_ok items' \<and> s = dq_text items' @ DQ # after'))
   \<and> (isspace w \<and> tok \<noteq> [] \<and> hd tok \<noteq> DQ \<and> (\<forall>c \<in> set tok. \<not> isspace c) \<longrightarrow>
        read_str (tok @ w # rest) = Some (dropWhile isspace rest, tok))
   \<and> (q \<in> {DQ, SQ} \<and> q \<notin> set pat \<longrightarrow>
        quote_remove (take (name_string_length (q # pat @ q # r)) (q # pat @ q # r)) = pat)"
proof (intro conjI impI)
  show "read_str (DQ # dq_text items @ DQ # after)
          = (if after \<noteq> [] \<and> isspace (hd after)
             then Some (dropWhile isspace after, map dq_value items) else None)"
    if "dq_ok items"
    using read_str_quoted_items [OF that, of after "[]"] by (simp add: read_str_def)
  show "\<exists>items' after'. dq_ok items' \<and> s = dq_text items' @ DQ # after'"
    if "read_str (DQ # s) \<noteq> None"
  proof -
    have "read_str_quoted s [] \<noteq> None" using that by (simp add: read_str_def)
    then obtain res where "read_str_quoted s [] = Some res" by blast
    then show ?thesis by (rule read_str_quoted_closed)
  qed
  show "read_str (tok @ w # rest) = Some (dropWhile isspace rest, tok)"
    if "isspace w \<and> tok \<noteq> [] \<and> hd tok \<noteq> DQ \<and> (\<forall>c \<in> set tok. \<not> isspace c)"
    using read_str_plain [of w tok rest] that by simp
  show "quote_remove (take (name_string_length (q # pat @ q # r)) (q # pat @ q # r)) = pat"
    if "q \<in> {DQ, SQ} \<and> q \<notin> set pat"
    using quote_remove_quoted [of q pat r] that by simp
qed

theorem quoted_fields_witness:
  "read_str (DQ # ''a'' @ [BSL] @ ''nb'' @ [BSL, DQ] @ ''c '' @ [BSL, BSL] @ DQ # '' 0644'')
      = Some (''0644'', ''a'' @ [BSL] @ ''nb'' @ [DQ] @ ''c '' @ [BSL])
   \<and> read_str (DQ # ''a b'' @ DQ # ''x 0644'') = None
   \<and> read_str (DQ # ''a b'' @ [DQ]) = None
   \<and> (\<exists>items after. dq_ok items \<and> ''a'' @ DQ # '' 0644'' = dq_text items @ DQ # after)
   \<and> read_str (SQ # ''a'' @ SQ # '' 0644'') = Some (''0644'', SQ # ''a'' @ [SQ])
   \<and> quote_remove (take (name_string_length (SQ # ''a b'' @ SQ # '' -- dir''))
                       (SQ # ''a b'' @ SQ # '' -- dir'')) = ''a b''"
proof -
  let ?items = "[Plain CHR ''a'', Plain BSL, Plain CHR ''n'', Plain CHR ''b'', Esc DQ,
                 Plain CHR ''c'', Plain CHR '' '', Esc BSL]"
  let ?ab = "[Plain CHR ''a'', Plain CHR '' '', Plain CHR ''b'']"
  have closed: "read_str (DQ # ''a'' @ DQ # '' 0644'') \<noteq> None"
    by (simp add: read_str_def isspace_def)
  show ?thesis
    using quoted_fields [of ?items "'' 0644''" "''a'' @ DQ # '' 0644''" "CHR '' ''"
        "SQ # ''a'' @ [SQ]" "''0644''" SQ "''a b''" "'' -- dir''"]
      quoted_fields [of ?ab "''x 0644''"] quoted_fields [of ?ab "[]"] closed
    by (simp add: isspace_def)
qed

text \<open>
  The claim as stated fails in both places where the two mechanisms differ. The path
  field \<^verbatim>\<open>'a b'\<close> is not taken up to the closing single quote: \<^verbatim>\<open>read_str\<close> ends
  it at the space and keeps the quote. In a double-quoted pattern \<^verbatim>\<open>"a\"b"\<close> the
  backslash is no escape: the pattern ends at the quote behind it.
\<close>

theorem single_quoted_path_counterexample:
  "read_str (SQ # ''a b'' @ SQ # '' 0644 0 0'') = Some (''b'' @ SQ # '' 0644 0 0'', SQ # ''a'')
   \<and> quote_remove (take (name_string_length (DQ # ''a'' @ [BSL, DQ] @ ''b'' @ DQ # '' x''))
                       (DQ # ''a'' @ [BSL, DQ] @ ''b'' @ DQ # '' x'')) = ''a'' @ [BSL]"
  by (simp add: read_str_def isspace_def name_string_length_def quote_remove_def)


subsection \<open>The owner override\<close>

lemma set_owner_tuple:
  "set_owner opt (u, g, m, x) =
     (if force_uid opt then force_uid_value opt else u,
      if force_gid opt then force_gid_value opt else g, m, x)"
  by (simp add: set_owner_def)

lemma reachable_override:
  "reachable (override_owner_dfs opt t) = map (set_owner opt) (reachable t)"
proof (induction opt t rule: override_owner_dfs.induct)
  case (1 opt u g m x cs)
  show ?case
  proof (cases "S_ISDIR m")
    case True
    have "concat (map (reachable \<circ> override_owner_dfs opt) cs)
            = concat (map (map (set_owner opt) \<circ> reachable) cs)"
      using "1.IH" [OF True] by (simp cong: map_cong)
    then show ?thesis using True by (simp add: set_owner_tuple map_concat)
  next
    case False
    then show ?thesis by (simp add: set_owner_tuple)
  qed
qed

lemma erase_override:
  "erase_owner (override_owner_dfs opt t) = erase_owner t"
proof (induction opt t rule: override_owner_dfs.induct)
  case (1 opt u g m x cs)
  show ?case
  proof (cases "S_ISDIR m")
    case True
    have "map (erase_owner \<circ> override_owner_dfs opt) cs = map erase_owner cs"
      using "1.IH" [OF True] by (simp cong: map_cong)
    then show ?thesis using True by simp
  next
    case False
    then show ?thesis by simp
  qed
qed

lemma set_owner_none:
  "\<not> force_uid opt \<Longrightarrow> \<not> force_gid opt \<Longrightarrow> set_owner opt n = n"
  by (cases n) (simp add: set_owner_def)

text \<open>
  Claim C3. \<^verbatim>\<open>main\<close> hands to \<^verbatim>\<open>fstree_post_process\<close> the tree \<open>root'\<close> that the
  override stage leaves. In it every node reachable from the root has the forced uid if
  force-uid is configured and its own uid if not, the same for the gid, and its other
  attributes unchanged; apart from uid and gid the tree is the same; and if neither is
  configured the tree is not modified at all.
\<close>

theorem owner_override:
  fixes fstree_post_process :: "'a tree_node \<Rightarrow> 'r"
  defines "root' \<equiv> main_override_then_post_process (\<lambda>t. t)"
  shows "main_override_then_post_process fstree_post_process opt root
           = fstree_post_process (root' opt root)
       \<and> reachable (root' opt root) = map (set_owner opt) (reachable root)
       \<and> erase_owner (root' opt root) = erase_owner root
       \<and> (\<not> force_uid opt \<and> \<not> force_gid opt \<longrightarrow> root' opt root = root)"
proof (cases "force_uid opt \<or> force_gid opt")
  case True
  then have r: "root' opt root = override_owner_dfs opt root"
    by (simp add: root'_def main_override_then_post_process_def)
  show ?thesis
    unfolding r using True
    by (auto simp: main_override_then_post_process_def reachable_override erase_override)
next
  case False
  then have r: "root' opt root = root"
    by (simp add: root'_def main_override_then_post_process_def)
  have "map (set_owner opt) (reachable root) = reachable root"
    using False by (simp add: set_owner_none cong: map_cong)
  then show ?thesis
    unfolding r using False by (simp add: main_override_then_post_process_def)
qed

theorem owner_override_witness:
  "main_override_then_post_process (\<lambda>t. t)
     \<lparr>force_uid = True, force_gid = False, force_uid_value = 1000, force_gid_value = 0\<rparr>
     example_tree_root
     = TreeNode 1000 0 0x41ED ''/''
         [TreeNode 1000 6 0x81A4 ''a'' [],
          TreeNode 1000 8 0x41ED ''d'' [TreeNode 1000 10 0xA1FF ''l'' []]]
   \<and> reachable (main_override_then_post_process (\<lambda>t. t)
        \<lparr>force_uid = True, force_gid = False, force_uid_value = 1000, force_gid_value = 0\<rparr>
        example_tree_root)
     = [(1000, 0, 0x41ED, ''/''), (1000, 6, 0x81A4, ''a''), (1000, 8, 0x41ED, ''d''),
        (1000, 10, 0xA1FF, ''l'')]
   \<and> main_override_then_post_process (\<lambda>t. t)
     \<lparr>force_uid = False, force_gid = False, force_uid_value = 1000, force_gid_value = 0\<rparr>
     example_tree_root = example_tree_root"
proof -
  let ?opt = "\<lparr>force_uid = True, force_gid = False, force_uid_value = 1000,
               force_gid_value = 0\<rparr>"
  let ?none = "\<lparr>force_uid = False, force_gid = False, force_uid_value = 1000,
                force_gid_value = 0\<rparr>"
  have t: "main_override_then_post_process (\<lambda>t. t) ?opt example_tree_root
             = TreeNode 1000 0 0x41ED ''/''
                 [TreeNode 1000 6 0x81A4 ''a'' [],
                  TreeNode 1000 8 0x41ED ''d'' [TreeNode 1000 10 0xA1FF ''l'' []]]"
    by (simp add: main_override_then_post_process_def example_tree_root_def S_ISDIR_def
        S_IFMT_def S_IFDIR_def)
  have r: "reachable example_tree_root
             = [(0, 0, 0x41ED, ''/''), (5, 6, 0x81A4, ''a''), (7, 8, 0x41ED, ''d''),
                (9, 10, 0xA1FF, ''l'')]"
    by (simp add: example_tree_root_def S_ISDIR_def S_IFMT_def S_IFDIR_def)
  show ?thesis
    using owner_override [of "\<lambda>t. t" ?opt example_tree_root]
      owner_override [of "\<lambda>t. t" ?none example_tree_root] t r
    by (simp add: set_owner_def)
qed

subsection \<open>\<^verbatim>\<open>istream_read\<close>\<close>

lemma sint_small:
  fixes w :: "32 word"
  assumes "unat w < 2 ^ 31"
  shows "sint w = int (unat w)"
proof -
  have "int (unat w) < int (2 ^ 31)"
    using assms by (rule iffD2 [OF of_nat_less_iff])
  then have lt: "uint w < 2 ^ 31" by simp
  have "- (2 ^ 31) \<le> (0 :: int)" by simp
  also have "0 \<le> uint w" by simp
  finally have ge: "- (2 ^ 31) \<le> uint w" .
  have "sint w = signed_take_bit 31 (uint w)" by (simp add: sint_uint)
  also have "\<dots> = uint w"
    using ge lt by (rule signed_take_bit_int_eq_self)
  finally show ?thesis by simp
qed

lemma unat_total_add:
  fixes total_n :: "32 word"
  assumes "unat total_n + d < 2 ^ 31"
  shows "unat (total_n + of_nat d) = unat total_n + d"
proof -
  have d: "unat (of_nat d :: 32 word) = d" using assms by (simp add: unat_of_nat)
  have "unat total_n + unat (of_nat d :: 32 word) < 2 ^ LENGTH(32)" using assms d by simp
  then show ?thesis using d by (simp add: unat_add_lem [THEN iffD1])
qed

lemma next_chunk_concat:
  "next_chunk ps = (c, rest) \<Longrightarrow> concat ps = c @ concat rest"
  by (induction ps) (auto split: if_splits)

lemma next_chunk_empty:
  "next_chunk ps = ([], rest) \<Longrightarrow> rest = [] \<and> concat ps = []"
  by (induction ps) (auto split: if_splits)

lemma precache_Some:
  assumes "istream_precache strm = Some strm'"
  shows "remaining strm' = remaining strm" and "buffer_offset strm' = 0"
    and "fails strm' = fails strm"
    and "buffer strm' = [] \<Longrightarrow> remaining strm = [] \<and> \<not> fails strm"
proof -
  obtain c rest where nc: "next_chunk (pending strm) = (c, rest)"
    by (cases "next_chunk (pending strm)")
  have s: "strm' = strm\<lparr>buffer := drop (buffer_offset strm) (buffer strm) @ c,
                        buffer_offset := 0, pending := rest\<rparr>"
    and nf: "\<not> (c = [] \<and> fails strm)"
    using assms nc by (auto simp: istream_precache_def Let_def split: if_splits)
  show "remaining strm' = remaining strm"
    using s next_chunk_concat [OF nc] by (simp add: remaining_def)
  show "buffer_offset strm' = 0" using s by simp
  show "fails strm' = fails strm" using s by simp
  show "remaining strm = [] \<and> \<not> fails strm" if "buffer strm' = []"
    using that s nf nc next_chunk_empty [of "pending strm" rest]
    by (auto simp: remaining_def)
qed

lemma precache_None:
  assumes "istream_precache strm = None" and "length (buffer strm) \<le> buffer_offset strm"
  shows "remaining strm = []" and "fails strm"
proof -
  obtain c rest where nc: "next_chunk (pending strm) = (c, rest)"
    by (cases "next_chunk (pending strm)")
  have c: "c = []" and f: "fails strm"
    using assms(1) nc by (auto simp: istream_precache_def Let_def split: if_splits)
  show "fails strm" by (rule f)
  show "remaining strm = []"
    using assms(2) c nc next_chunk_empty [of "pending strm" rest] by (simp add: remaining_def)
qed

lemma read_post_step:
  assumes "read_post (drop d R) f (sz - d) (b + d) (data @ take d R) res"
    and "d \<le> sz" and "d \<le> length R"
  shows "read_post R f sz b data res"
proof -
  obtain ret strm' data' where res: "res = (ret, strm', data')" by (cases res)
  have t: "take d R @ take (sz - d) (drop d R) = take sz R"
    using assms(2) take_add [of d "sz - d" R] by simp
  have dd: "drop (sz - d) (drop d R) = drop sz R"
    using assms(2) by simp
  have le: "sz - d \<le> length R - d \<longleftrightarrow> sz \<le> length R"
    using assms(2,3) by auto
  show ?thesis
    using assms res t dd le
    by (auto simp: read_post_def split: if_splits)
qed

lemma copy_step:
  fixes strm :: istream_t and sz :: nat
  assumes "buffer_offset strm < length (buffer strm)"
    and "diff = min (length (buffer strm) - buffer_offset strm) sz"
  shows "remaining (strm\<lparr>buffer_offset := buffer_offset strm + diff\<rparr>) = drop diff (remaining strm)"
    and "take diff (drop (buffer_offset strm) (buffer strm)) = take diff (remaining strm)"
    and "diff \<le> length (remaining strm)" and "diff \<le> sz"
  using assms by (simp_all add: remaining_def add.commute)


lemma read_post_copy:
  fixes strm0 strm :: istream_t
  assumes off: "buffer_offset strm < length (buffer strm)"
    and diff: "diff = min (length (buffer strm) - buffer_offset strm) sz"
    and same: "remaining strm = remaining strm0" "fails strm = fails strm0"
    and ih: "read_post (remaining (strm\<lparr>buffer_offset := buffer_offset strm + diff\<rparr>))
               (fails (strm\<lparr>buffer_offset := buffer_offset strm + diff\<rparr>))
               (sz - diff) (base + diff)
               (data @ take diff (drop (buffer_offset strm) (buffer strm))) res"
  shows "read_post (remaining strm0) (fails strm0) sz base data res"
proof -
  note c = copy_step [OF off diff]
  have "read_post (drop diff (remaining strm0)) (fails strm0) (sz - diff) (base + diff)
          (data @ take diff (remaining strm0)) res"
    using ih c(1,2) same by simp
  moreover have "diff \<le> sz" and "diff \<le> length (remaining strm0)"
    using c(3,4) same(1) by simp_all
  ultimately show ?thesis by (rule read_post_step)
qed

lemma istream_read_loop_post:
  assumes "unat total_n + sz < 2 ^ 31"
  shows "read_post (remaining strm) (fails strm) sz (unat total_n) data
           (istream_read_loop strm sz total_n data)"
  using assms
proof (induction strm sz total_n data rule: istream_read_loop.induct)
  case (1 strm sz total_n data)
  have small: "unat total_n < 2 ^ 31" using "1.prems" by simp
  show ?case
  proof (cases "0 < sz")
    case False
    then show ?thesis
      using sint_small [OF small]
      by (subst istream_read_loop.simps) (simp add: read_post_def)
  next
    case pos: True
    show ?thesis
    proof (cases "length (buffer strm) \<le> buffer_offset strm")
      case consumed: True
      show ?thesis
      proof (cases "istream_precache strm")
        case None
        then show ?thesis
          using pos consumed precache_None [OF None consumed]
          by (subst istream_read_loop.simps) (simp add: read_post_def)
      next
        case (Some strm')
        note pc = precache_Some [OF Some]
        show ?thesis
        proof (cases "buffer strm' = []")
          case True
          then show ?thesis
            using pos consumed Some pc(1) pc(4) [OF True] sint_small [OF small]
            by (subst istream_read_loop.simps) (simp add: read_post_def)
        next
          case False
          define diff where "diff = min (length (buffer strm') - buffer_offset strm') sz"
          have off: "buffer_offset strm' < length (buffer strm')"
            using False pc(2) by simp
          have le: "diff \<le> sz" by (simp add: diff_def)
          have bound: "unat (total_n + of_nat diff) + (sz - diff) < 2 ^ 31"
            and tot: "unat (total_n + of_nat diff) = unat total_n + diff"
            using "1.prems" le unat_total_add [of total_n diff] by simp_all
          have ne: "length (buffer strm') \<noteq> 0" using False by simp
          have ih: "read_post (remaining (strm'\<lparr>buffer_offset := buffer_offset strm' + diff\<rparr>))
                      (fails (strm'\<lparr>buffer_offset := buffer_offset strm' + diff\<rparr>))
                      (sz - diff) (unat total_n + diff)
                      (data @ take diff (drop (buffer_offset strm') (buffer strm')))
                      (istream_read_loop (strm'\<lparr>buffer_offset := buffer_offset strm' + diff\<rparr>)
                         (sz - diff) (total_n + of_nat diff)
                         (data @ take diff (drop (buffer_offset strm') (buffer strm'))))"
            using "1.IH"(1) [OF pos consumed Some ne diff_def bound] tot by simp
          have "read_post (remaining strm) (fails strm) sz (unat total_n) data
                  (istream_read_loop (strm'\<lparr>buffer_offset := buffer_offset strm' + diff\<rparr>)
                     (sz - diff) (total_n + of_nat diff)
                     (data @ take diff (drop (buffer_offset strm') (buffer strm'))))"
            by (rule read_post_copy [OF off diff_def pc(1) pc(3) ih])
          then show ?thesis
            using pos consumed Some False
            by (subst istream_read_loop.simps) (simp add: Let_def diff_def)
        qed
      qed
    next
      case avail: False
      define diff where "diff = min (length (buffer strm) - buffer_offset strm) sz"
      have off: "buffer_offset strm < length (buffer strm)" using avail by simp
      have le: "diff \<le> sz" by (simp add: diff_def)
      have bound: "unat (total_n + of_nat diff) + (sz - diff) < 2 ^ 31"
        and tot: "unat (total_n + of_nat diff) = unat total_n + diff"
        using "1.prems" le unat_total_add [of total_n diff] by simp_all
      have ih: "read_post (remaining (strm\<lparr>buffer_offset := buffer_offset strm + diff\<rparr>))
                  (fails (strm\<lparr>buffer_offset := buffer_offset strm + diff\<rparr>))
                  (sz - diff) (unat total_n + diff)
                  (data @ take diff (drop (buffer_offset strm) (buffer strm)))
                  (istream_read_loop (strm\<lparr>buffer_offset := buffer_offset strm + diff\<rparr>)
                     (sz - diff) (total_n + of_nat diff)
                     (data @ take diff (drop (buffer_offset strm) (buffer strm))))"
        using "1.IH"(2) [OF pos avail diff_def bound] tot by simp
      have "read_post (remaining strm) (fails strm) sz (unat total_n) data
              (istream_read_loop (strm\<lparr>buffer_offset := buffer_offset strm + diff\<rparr>)
                 (sz - diff) (total_n + of_nat diff)
                 (data @ take diff (drop (buffer_offset strm) (buffer strm))))"
        by (rule read_post_copy [OF off diff_def refl refl ih])
      then show ?thesis
        using pos avail
        by (subst istream_read_loop.simps) (simp add: Let_def diff_def)
    qed
  qed
qed

text \<open>
  Claim C10. Let \<open>cap\<close> be the requested size capped at 2^31 - 1 and \<open>R\<close> the bytes the
  stream has still to deliver. If \<open>R\<close> has at least \<open>cap\<close> bytes, \<^verbatim>\<open>istream_read\<close>
  returns \<open>cap\<close> and delivers the first \<open>cap\<close> bytes of \<open>R\<close>, leaving the rest in the
  stream. Otherwise it returns -1 if fetching more data fails, and else the length of
  \<open>R\<close>, having delivered all of \<open>R\<close> and left the stream exhausted. So the return
  value is -1 or a count from 0 to \<open>cap\<close>, and the bytes delivered are the next bytes
  of the stream in order.
\<close>

theorem istream_read_result:
  fixes strm :: istream_t and sz :: nat
  defines "cap \<equiv> min sz 0x7FFFFFFF" and "R \<equiv> remaining strm"
  shows "\<exists>ret strm' data.
           istream_read strm sz = (ret, strm', data)
         \<and> (if cap \<le> length R
            then ret = int cap \<and> data = take cap R \<and> remaining strm' = drop cap R
            else if fails strm then ret = -1 \<and> data = R
            else ret = int (length R) \<and> data = R \<and> remaining strm' = [])
         \<and> (ret = -1 \<or> (0 \<le> ret \<and> ret \<le> int cap \<and> data = take (nat ret) R))"
proof -
  obtain ret strm' data where res: "istream_read strm sz = (ret, strm', data)"
    by (cases "istream_read strm sz")
  have loop: "istream_read strm sz = istream_read_loop strm cap 0 []"
    by (auto simp: istream_read_def cap_def min_def)
  have "unat (0 :: 32 word) + cap < 2 ^ 31" by (simp add: cap_def)
  then have "read_post R (fails strm) cap (unat (0 :: 32 word)) []
               (istream_read_loop strm cap 0 [])"
    unfolding R_def by (rule istream_read_loop_post)
  then have post: "if cap \<le> length R
            then ret = int cap \<and> data = take cap R \<and> remaining strm' = drop cap R
            else if fails strm then ret = -1 \<and> data = R
            else ret = int (length R) \<and> data = R \<and> remaining strm' = []"
    using res loop by (simp add: read_post_def)
  then have "ret = -1 \<or> (0 \<le> ret \<and> ret \<le> int cap \<and> data = take (nat ret) R)"
    by (auto split: if_splits)
  then show ?thesis using res post by blast
qed


theorem istream_read_result_witness:
  "fst (istream_read example_stream 4) = 4
   \<and> snd (snd (istream_read example_stream 4)) = [2, 3, 4, 5]
   \<and> fst (istream_read example_stream 100) = 5
   \<and> snd (snd (istream_read example_stream 100)) = [2, 3, 4, 5, 6]
   \<and> fst (istream_read (example_stream\<lparr>fails := True\<rparr>) 100) = -1"
proof -
  have r: "remaining example_stream = [2, 3, 4, 5, 6]"
    "remaining (example_stream\<lparr>fails := True\<rparr>) = [2, 3, 4, 5, 6]"
    by (simp_all add: remaining_def example_stream_def)
  have f: "\<not> fails example_stream" "fails (example_stream\<lparr>fails := True\<rparr>)"
    by (simp_all add: example_stream_def)
  show ?thesis
    using istream_read_result [of example_stream 4] istream_read_result [of example_stream 100]
      istream_read_result [of "example_stream\<lparr>fails := True\<rparr>" 100]
    unfolding r using f by auto
qed

end
